theory Spec2Isabelle
  imports Main "HOL-Library.Word"
begin

section \<open>The timed user validator of proxy/vmess/vmess.go\<close>

text \<open>
  The validator keeps, for every registered user key and every second of a sliding
  window, the 16-byte keyed hash of that second. The Go code is embedded with explicit
  state passing: every method of \<open>*TimedUserValidator\<close> takes the validator and returns
  the updated one. Wall-clock readings (\<open>time.Now().Unix()\<close>) are arguments.
\<close>

subsection \<open>Data\<close>

type_synonym byte = "8 word"

text \<open>\<open>protocol.Timestamp\<close> is an \<open>int64\<close>: arithmetic wraps, comparison is signed.\<close>

type_synonym Timestamp = "64 word"

text \<open>A \<open>protocol.ID\<close> is used only through \<open>Bytes()\<close>; it is identified with those bytes.\<close>

type_synonym ID = "byte list"

text \<open>
  \<open>protocol.IDHash\<close>: \<open>h key msg\<close> is the digest that \<open>Sum\<close> appends once \<open>msg\<close> has
  been written to the accumulator \<open>h(key)\<close>, fresh or \<open>Reset\<close>.
\<close>

type_synonym IDHash = "byte list \<Rightarrow> byte list \<Rightarrow> byte list"

definition updateIntervalSec :: Timestamp where
  "updateIntervalSec = 10"

definition cacheDurationSec :: Timestamp where
  "cacheDurationSec = 120"

record idEntry =
  id' :: ID
  userIdx :: int
  lastSec :: Timestamp

record indexTimePair =
  index :: int
  timeInc :: "32 word"

datatype error = AccountTypeError

text \<open>
  The account a user carries: the \<open>*InternalAccount\<close> of this package, or an account of
  any other dynamic type.
\<close>

datatype Account = InternalAccount (ID: ID) (AlterIDs: "ID list") | OtherAccount

text \<open>
  Modelled from the spec: \<open>protocol.User\<close> and its method \<open>GetTypedAccount\<close> are not part
  of the source file. A user exposes a typed credential record (primary key and ordered
  alternate keys) or the method fails with an error; the field holds what the method returns.
\<close>

record User =
  Email :: string
  GetTypedAccount :: "error + Account"

record TimedUserValidator =
  validUsers :: "User list"
  userHash :: "byte list \<rightharpoonup> indexTimePair"
  ids :: "idEntry list"
  hasher :: IDHash
  baseTime :: Timestamp

text \<open>A call either returns its results or panics.\<close>

datatype 'a go_result = Returned 'a | Panicked

subsection \<open>Helpers of the Go runtime and of package protocol\<close>

text \<open>
  Modelled from the spec: \<open>Timestamp.Bytes\<close> is not part of the source file; it is the
  fixed-width big-endian 64-bit encoding of the second.
\<close>

definition Timestamp_Bytes :: "Timestamp \<Rightarrow> byte list" where
  "Timestamp_Bytes t = map (\<lambda>i. ucast (drop_bit (8 * i) t)) [7, 6, 5, 4, 3, 2, 1, 0 :: nat]"

text \<open>
  \<open>idHash.Sum(hashValue[:0])\<close> appends the digest to a slice of length 0 and capacity 16
  over \<open>hashValue\<close>: a digest that fits is written in place over the front of the array, a
  longer one goes to a fresh array and leaves \<open>hashValue\<close> as it was.
\<close>

definition Sum_into :: "byte list \<Rightarrow> byte list \<Rightarrow> byte list" where
  "Sum_into digest hashValue =
     (if length digest \<le> length hashValue
      then digest @ drop (length digest) hashValue else hashValue)"

text \<open>\<open>copy(fixedSizeHash[:], userHash)\<close> into a zeroed \<open>[16]byte\<close>.\<close>

definition copy16 :: "byte list \<Rightarrow> byte list" where
  "copy16 src = take 16 src @ replicate (16 - length src) 0"

subsection \<open>Construction\<close>

definition NewTimedUserValidator :: "Timestamp \<Rightarrow> IDHash \<Rightarrow> TimedUserValidator" where
  "NewTimedUserValidator now h =
     \<lparr>validUsers = [], userHash = Map.empty, ids = [], hasher = h,
      baseTime = now - cacheDurationSec * 3\<rparr>"

subsection \<open>generateNewHashes\<close>

text \<open>
  The loop \<open>for entry.lastSec <= nowSec\<close>. It does not end when \<open>nowSec\<close> is the largest
  \<open>int64\<close>, since the cursor wraps; not returning is the value \<open>None\<close>.
\<close>

partial_function (option) generateNewHashes_loop ::
  "Timestamp \<Rightarrow> int \<Rightarrow> byte list \<Rightarrow> TimedUserValidator \<Rightarrow> idEntry
     \<Rightarrow> (TimedUserValidator \<times> idEntry) option" where
  "generateNewHashes_loop nowSec idx hashValue v entry =
     (if lastSec entry \<le>s nowSec then
        (let hashValue' =
               Sum_into (hasher v (id' entry) (Timestamp_Bytes (lastSec entry))) hashValue
         in generateNewHashes_loop nowSec idx hashValue'
              (v\<lparr>userHash := (userHash v)(hashValue' \<mapsto>
                    \<lparr>index = idx, timeInc = ucast (lastSec entry - baseTime v)\<rparr>)\<rparr>)
              (entry\<lparr>lastSec := lastSec entry + 1\<rparr>))
      else Some (v, entry))"

definition generateNewHashes ::
  "Timestamp \<Rightarrow> int \<Rightarrow> idEntry \<Rightarrow> TimedUserValidator
     \<Rightarrow> (TimedUserValidator \<times> idEntry) option" where
  "generateNewHashes nowSec idx entry v =
     generateNewHashes_loop nowSec idx (replicate 16 0) v entry"

subsection \<open>removeExpiredHashes\<close>

text \<open>
  \<open>for key, pair := range v.userHash\<close> visits the keys in an order the runtime chooses;
  the order is the argument \<open>keys\<close>. The body deletes the key it is visiting only.
\<close>

definition removeExpiredHashes ::
  "byte list list \<Rightarrow> 32 word \<Rightarrow> TimedUserValidator \<Rightarrow> TimedUserValidator" where
  "removeExpiredHashes keys expire v =
     v\<lparr>userHash :=
         fold (\<lambda>key m. case m key of
                 None \<Rightarrow> m
               | Some pair \<Rightarrow> if timeInc pair < expire then m(key := None) else m)
           keys (userHash v)\<rparr>"

subsection \<open>One cycle of updateUserHash\<close>

text \<open>
  \<open>for _, entry := range v.ids\<close>: the entries are reached through pointers, so each one
  is advanced in place; the list of advanced entries is returned with the validator.
\<close>

fun generateAll ::
  "Timestamp \<Rightarrow> idEntry list \<Rightarrow> TimedUserValidator
     \<Rightarrow> (TimedUserValidator \<times> idEntry list) option" where
  "generateAll nowSec [] v = Some (v, [])"
| "generateAll nowSec (entry # entries) v =
     (case generateNewHashes nowSec (userIdx entry) entry v of
        None \<Rightarrow> None
      | Some (v1, entry1) \<Rightarrow>
          (case generateAll nowSec entries v1 of
             None \<Rightarrow> None
           | Some (v2, entries2) \<Rightarrow> Some (v2, entry1 # entries2)))"

text \<open>The first half of a cycle, for the timer firing at second \<open>now\<close>.\<close>

definition refreshHashes :: "Timestamp \<Rightarrow> TimedUserValidator \<Rightarrow> TimedUserValidator option" where
  "refreshHashes now v =
     (let nowSec = now + cacheDurationSec in
      case generateAll nowSec (ids v) v of
        None \<Rightarrow> None
      | Some (v1, entries) \<Rightarrow> Some (v1\<lparr>ids := entries\<rparr>))"

text \<open>The second half: the guarded sweep.\<close>

definition expireHashes ::
  "byte list list \<Rightarrow> Timestamp \<Rightarrow> TimedUserValidator \<Rightarrow> TimedUserValidator" where
  "expireHashes keys now v =
     (let expire = now - cacheDurationSec * 3 in
      if baseTime v <s expire
      then removeExpiredHashes keys (ucast (expire - baseTime v)) v
      else v)"

definition updateUserHash_cycle ::
  "byte list list \<Rightarrow> Timestamp \<Rightarrow> TimedUserValidator \<Rightarrow> TimedUserValidator option" where
  "updateUserHash_cycle keys now v =
     (case refreshHashes now v of
        None \<Rightarrow> None
      | Some v1 \<Rightarrow> Some (expireHashes keys now v1))"

subsection \<open>Add and Get\<close>

text \<open>The block that Add runs for the primary key and again for each alternate key.\<close>

definition addEntry ::
  "Timestamp \<Rightarrow> int \<Rightarrow> ID \<Rightarrow> TimedUserValidator \<Rightarrow> TimedUserValidator option" where
  "addEntry nowSec idx key v =
     (let entry = \<lparr>id' = key, userIdx = idx, lastSec = nowSec - cacheDurationSec\<rparr> in
      case generateNewHashes (nowSec + cacheDurationSec) idx entry v of
        None \<Rightarrow> None
      | Some (v1, entry1) \<Rightarrow> Some (v1\<lparr>ids := ids v1 @ [entry1]\<rparr>))"

fun addAlterIDs ::
  "Timestamp \<Rightarrow> int \<Rightarrow> ID list \<Rightarrow> TimedUserValidator \<Rightarrow> TimedUserValidator option" where
  "addAlterIDs nowSec idx [] v = Some v"
| "addAlterIDs nowSec idx (alterid # rest) v =
     (case addEntry nowSec idx alterid v of
        None \<Rightarrow> None
      | Some v1 \<Rightarrow> addAlterIDs nowSec idx rest v1)"

text \<open>
  \<open>Add\<close> at wall-clock second \<open>nowSec\<close>. The user is appended before the account is
  looked at; the type assertion to \<open>*InternalAccount\<close> panics on any other account.
\<close>

definition Add ::
  "Timestamp \<Rightarrow> User \<Rightarrow> TimedUserValidator
     \<Rightarrow> (error option go_result \<times> TimedUserValidator) option" where
  "Add nowSec user v =
     (let idx = int (length (validUsers v));
          v0 = v\<lparr>validUsers := validUsers v @ [user]\<rparr>
      in case GetTypedAccount user of
           Inl err \<Rightarrow> Some (Returned (Some err), v0)
         | Inr OtherAccount \<Rightarrow> Some (Panicked, v0)
         | Inr (InternalAccount key alterids) \<Rightarrow>
             (case addEntry nowSec idx key v0 of
                None \<Rightarrow> None
              | Some v1 \<Rightarrow>
                  (case addAlterIDs nowSec idx alterids v1 of
                     None \<Rightarrow> None
                   | Some v2 \<Rightarrow> Some (Returned None, v2))))"

text \<open>
  \<open>Get\<close> reads under the shared lock. A hit indexes \<open>validUsers\<close>, which panics out of
  range; a miss returns \<open>nil, 0, false\<close>.
\<close>

definition Get ::
  "byte list \<Rightarrow> TimedUserValidator
     \<Rightarrow> (User option \<times> Timestamp \<times> bool) go_result \<times> TimedUserValidator" where
  "Get bytes v =
     (let fixedSizeHash = copy16 bytes in
      case userHash v fixedSizeHash of
        Some pair \<Rightarrow>
          (if 0 \<le> index pair \<and> index pair < int (length (validUsers v))
           then (Returned (Some (validUsers v ! nat (index pair)),
                           ucast (timeInc pair) + baseTime v, True), v)
           else (Panicked, v))
      | None \<Rightarrow> (Returned (None, 0, False), v))"

subsection \<open>Reachable validators\<close>

text \<open>
  The states a validator goes through: construction, then calls of \<open>Add\<close> and cycles of
  the background task, each under the exclusive lock. A cycle's sweep visits exactly
  the keys the map holds when the sweep starts.
\<close>

inductive reachable :: "TimedUserValidator \<Rightarrow> bool" where
  reachable_New: "reachable (NewTimedUserValidator now h)"
| reachable_Add: "reachable v \<Longrightarrow> Add nowSec user v = Some (r, v') \<Longrightarrow> reachable v'"
| reachable_cycle:
    "reachable v \<Longrightarrow> refreshHashes now v = Some v1 \<Longrightarrow> set keys = dom (userHash v1)
       \<Longrightarrow> reachable (expireHashes keys now v1)"

subsection \<open>Properties of hash strategies\<close>

text \<open>The strategy produces 16-byte digests.\<close>

definition digest16 :: "IDHash \<Rightarrow> bool" where
  "digest16 h \<longleftrightarrow> (\<forall>key msg. length (h key msg) = 16)"

text \<open>
  The strategy is collision-free over a set of keys: distinct (key, second) pairs with
  keys of the set have distinct tokens.
\<close>

definition collision_free :: "IDHash \<Rightarrow> ID set \<Rightarrow> bool" where
  "collision_free h K \<longleftrightarrow>
     (\<forall>k \<in> K. \<forall>k' \<in> K. \<forall>s s'.
        h k (Timestamp_Bytes s) = h k' (Timestamp_Bytes s') \<longrightarrow> k = k' \<and> s = s')"

subsection \<open>Invariants and the seconds of a run\<close>

text \<open>
  Every index stored in the map or in an entry is a position of the user list.
\<close>

definition index_inv :: "TimedUserValidator \<Rightarrow> bool" where
  "index_inv v \<longleftrightarrow>
     (\<forall>t p. userHash v t = Some p \<longrightarrow> 0 \<le> index p \<and> index p < int (length (validUsers v)))
     \<and> (\<forall>e \<in> set (ids v). 0 \<le> userIdx e \<and> userIdx e < int (length (validUsers v)))"

text \<open>
  Every token of the map is the token of some second under the key of an entry that
  carries the index stored with the token.
\<close>

definition owner_inv :: "TimedUserValidator \<Rightarrow> bool" where
  "owner_inv v \<longleftrightarrow>
     (\<forall>t p. userHash v t = Some p \<longrightarrow>
        (\<exists>e \<in> set (ids v). userIdx e = index p
           \<and> (\<exists>s. t = hasher v (id' e) (Timestamp_Bytes s))))"

text \<open>
  The keys of the credential record of a user; none when the user has no internal
  account.
\<close>

definition account_keys :: "User \<Rightarrow> ID set" where
  "account_keys u =
     (case GetTypedAccount u of
        Inr (InternalAccount key alterids) \<Rightarrow> set (key # alterids)
      | _ \<Rightarrow> {})"

text \<open>
  Every entry carries the index of a user of the list whose credential record holds the
  key of the entry.
\<close>

definition entry_inv :: "TimedUserValidator \<Rightarrow> bool" where
  "entry_inv v \<longleftrightarrow>
     (\<forall>e \<in> set (ids v). 0 \<le> userIdx e \<and> userIdx e < int (length (validUsers v))
        \<and> id' e \<in> account_keys (validUsers v ! nat (userIdx e)))"


subsection \<open>Example inputs\<close>

text \<open>A map of two tokens, for the sweep.\<close>

definition sweep_example :: TimedUserValidator where
  "sweep_example =
     \<lparr>validUsers = [],
      userHash = [[1] \<mapsto> \<lparr>index = 0, timeInc = 5\<rparr>, [2] \<mapsto> \<lparr>index = 0, timeInc = 10\<rparr>],
      ids = [], hasher = (\<lambda>key msg. []), baseTime = 0\<rparr>"

text \<open>
  A stub hash: the key, then the message, padded or cut to 16 bytes. It is collision-free
  on one-byte keys. A second stub maps everything to the same token.
\<close>

definition h0 :: IDHash where
  "h0 key msg = take 16 (key @ msg @ replicate 16 0)"



text \<open>
  Users: one with a primary and an alternate key, one whose primary key is the primary
  key of the first, one without a usable account.
\<close>

definition user0 :: User where
  "user0 = \<lparr>Email = ''alice'', GetTypedAccount = Inr (InternalAccount [1] [[2]])\<rparr>"

definition user1 :: User where
  "user1 = \<lparr>Email = ''bob'', GetTypedAccount = Inr (InternalAccount [1] [])\<rparr>"

definition bad_user :: User where
  "bad_user = \<lparr>Email = ''nobody'', GetTypedAccount = Inl AccountTypeError\<rparr>"

text \<open>
  The scenario of a validator constructed at second 360, so that \<open>baseTime\<close> is 0, to
  which \<open>user0\<close> is added at second 360 (tokens for the seconds 240 to 480), and then
  \<open>user1\<close>; and the same construction and first step under the constant hash.
\<close>

definition validator0 :: TimedUserValidator where
  "validator0 = NewTimedUserValidator 360 h0"

definition validator1 :: TimedUserValidator where
  "validator1 = (case Add 360 user0 validator0 of Some (r, v') \<Rightarrow> v' | None \<Rightarrow> validator0)"

definition validator2 :: TimedUserValidator where
  "validator2 = (case Add 360 user1 validator1 of Some (r, v') \<Rightarrow> v' | None \<Rightarrow> validator1)"



text \<open>
  A third user with a key of its own, added after \<open>user0\<close>.
\<close>

definition user3 :: User where
  "user3 = \<lparr>Email = ''carol'', GetTypedAccount = Inr (InternalAccount [3] [])\<rparr>"

definition validator3 :: TimedUserValidator where
  "validator3 = (case Add 360 user3 validator1 of Some (r, v') \<Rightarrow> v' | None \<Rightarrow> validator1)"





section \<open>The sweep\<close>

lemma sweep_fold:
  "fold (\<lambda>key m. case m key of
                 None \<Rightarrow> m
               | Some pair \<Rightarrow> if timeInc pair < expire then m(key := None) else m) keys m k =
     (if k \<in> set keys
      then (case m k of None \<Rightarrow> None
            | Some pair \<Rightarrow> if timeInc pair < expire then None else Some pair)
      else m k)"
proof (induction keys arbitrary: m)
  case Nil
  show ?case by simp
next
  case (Cons key keys)
  show ?case
    by (cases "m key") (auto simp: Cons.IH split: option.splits)
qed

lemma removeExpiredHashes_frame:
  "validUsers (removeExpiredHashes keys expire v) = validUsers v"
  "ids (removeExpiredHashes keys expire v) = ids v"
  "hasher (removeExpiredHashes keys expire v) = hasher v"
  "baseTime (removeExpiredHashes keys expire v) = baseTime v"
  by (simp_all add: removeExpiredHashes_def)

lemma removeExpiredHashes_Some:
  "userHash (removeExpiredHashes keys expire v) t = Some p \<Longrightarrow> userHash v t = Some p"
  by (auto simp: removeExpiredHashes_def sweep_fold split: if_splits option.splits)

text \<open>
  C4. When the range loop visits the keys of the map, \<open>removeExpiredHashes expire\<close>
  deletes exactly the tokens whose \<open>timeInc\<close> is below \<open>expire\<close>: each of them is gone,
  every other token keeps its pair, no token appears, and the user list, the entry
  list, the hash strategy and the base time are untouched.
\<close>

theorem removeExpiredHashes_exact:
  assumes "set keys = dom (userHash v)"
  shows "(\<forall>key pair. userHash v key = Some pair \<longrightarrow>
            (timeInc pair < expire \<longrightarrow> userHash (removeExpiredHashes keys expire v) key = None) \<and>
            (expire \<le> timeInc pair \<longrightarrow> userHash (removeExpiredHashes keys expire v) key = Some pair))
       \<and> (\<forall>key. userHash v key = None \<longrightarrow> userHash (removeExpiredHashes keys expire v) key = None)
       \<and> validUsers (removeExpiredHashes keys expire v) = validUsers v
       \<and> ids (removeExpiredHashes keys expire v) = ids v
       \<and> hasher (removeExpiredHashes keys expire v) = hasher v
       \<and> baseTime (removeExpiredHashes keys expire v) = baseTime v"
proof -
  have "\<And>key pair. userHash v key = Some pair \<Longrightarrow> key \<in> set keys"
    using assms by auto
  then show ?thesis
    by (auto simp: removeExpiredHashes_def sweep_fold)
qed

theorem removeExpiredHashes_exact_witness:
  "set [[1], [2]] = dom (userHash sweep_example)
   \<and> userHash (removeExpiredHashes [[1], [2]] 7 sweep_example) [1] = None
   \<and> userHash (removeExpiredHashes [[1], [2]] 7 sweep_example) [2] = Some \<lparr>index = 0, timeInc = 10\<rparr>
   \<and> userHash (removeExpiredHashes [[1], [2]] 7 sweep_example) [3] = None"
proof -
  have d: "set [[1], [2]] = dom (userHash sweep_example)"
    by (auto simp: sweep_example_def)
  have a: "userHash sweep_example [1] = Some \<lparr>index = 0, timeInc = 5\<rparr>"
    and b: "userHash sweep_example [2] = Some \<lparr>index = 0, timeInc = 10\<rparr>"
    and c: "userHash sweep_example [3] = None"
    by (simp_all add: sweep_example_def)
  show ?thesis
    using d a b c removeExpiredHashes_exact [OF d, of 7] by simp
qed

section \<open>The generator loop\<close>

lemma sint_succ:
  fixes x :: Timestamp
  assumes "sint x < 2 ^ 63 - 1"
  shows "sint (x + 1) = sint x + 1"
proof -
  have lo: "- (2 ^ 63) \<le> sint x" using sint_ge [of x] by simp
  have "sint (x + 1) = signed_take_bit 63 (sint x + 1)"
    by (simp add: sint_word_ariths word_size)
  also have "\<dots> = sint x + 1"
    using lo assms by (intro signed_take_bit_int_eq_self) auto
  finally show ?thesis .
qed

lemma loop_induct [consumes 1, case_names stop iter]:
  assumes fin: "sint nowSec < 2 ^ 63 - 1"
    and stop: "\<And>hv v e. \<not> lastSec e \<le>s nowSec \<Longrightarrow> P hv v e"
    and iter: "\<And>hv v e. lastSec e \<le>s nowSec \<Longrightarrow>
        P (Sum_into (hasher v (id' e) (Timestamp_Bytes (lastSec e))) hv)
          (v\<lparr>userHash := (userHash v)(Sum_into (hasher v (id' e) (Timestamp_Bytes (lastSec e))) hv \<mapsto>
                    \<lparr>index = idx, timeInc = ucast (lastSec e - baseTime v)\<rparr>)\<rparr>)
          (e\<lparr>lastSec := lastSec e + 1\<rparr>) \<Longrightarrow> P hv v e"
  shows "P hv v (e :: idEntry)"
proof (induction "nat (sint nowSec + 1 - sint (lastSec e))" arbitrary: hv v e rule: less_induct)
  case less
  show ?case
  proof (cases "lastSec e \<le>s nowSec")
    case False
    then show ?thesis by (rule stop)
  next
    case True
    then have le: "sint (lastSec e) \<le> sint nowSec" by (simp add: word_sle_eq)
    with fin have "sint (lastSec e + 1) = sint (lastSec e) + 1"
      by (intro sint_succ) simp
    with le have "nat (sint nowSec + 1 - sint (lastSec (e\<lparr>lastSec := lastSec e + 1\<rparr>)))
        < nat (sint nowSec + 1 - sint (lastSec e))" by simp
    from less [OF this] show ?thesis by (rule iter [OF True])
  qed
qed

lemma Sum_into_digest16: "length d = 16 \<Longrightarrow> length hv = 16 \<Longrightarrow> Sum_into d hv = d"
  by (simp add: Sum_into_def)

lemma Sum_into_length: "length (Sum_into d hv) = length hv"
  by (simp add: Sum_into_def)


lemma loop_Some_not_max:
  assumes "generateNewHashes_loop nowSec idx hv v e = Some y"
  shows "sint nowSec \<noteq> 2 ^ 63 - 1"
proof (rule generateNewHashes_loop.raw_induct
    [where P = "\<lambda>nowSec idx hv v e y. sint nowSec \<noteq> 2 ^ 63 - 1", OF _ assms])
  fix f and nowSec :: Timestamp and idx :: int and hv :: "byte list"
    and v :: TimedUserValidator and e :: idEntry and y
  assume IH: "\<And>a b c d e y. f a b c d e = Some y \<Longrightarrow> sint a \<noteq> 2 ^ 63 - 1"
    and eq: "(if lastSec e \<le>s nowSec
      then let hashValue' = Sum_into (hasher v (id' e) (Timestamp_Bytes (lastSec e))) hv
           in f nowSec idx hashValue'
               (v\<lparr>userHash := (userHash v)(hashValue' \<mapsto>
                       \<lparr>index = idx, timeInc = ucast (lastSec e - baseTime v)\<rparr>)\<rparr>)
               (e\<lparr>lastSec := lastSec e + 1\<rparr>)
      else Some (v, e)) = Some y"
  show "sint nowSec \<noteq> 2 ^ 63 - 1"
  proof
    assume mx: "sint nowSec = 2 ^ 63 - 1"
    have "sint (lastSec e) < 2 ^ 63" using sint_lt [of "lastSec e"] by simp
    with mx have c: "lastSec e \<le>s nowSec" by (simp add: word_sle_eq)
    from eq c obtain hv' v' e' where "f nowSec idx hv' v' e' = Some y"
      by (simp add: Let_def)
    from IH [OF this] mx show False by simp
  qed
qed

lemma loop_fin:
  assumes "generateNewHashes_loop nowSec idx hv v e = Some y"
  shows "sint nowSec < 2 ^ 63 - 1"
  using loop_Some_not_max [OF assms] sint_lt [of nowSec] by simp

lemma loop_stop:
  "\<not> lastSec e \<le>s nowSec \<Longrightarrow> generateNewHashes_loop nowSec idx hv v e = Some (v, e)"
  by (subst generateNewHashes_loop.simps) simp

lemma loop_iter:
  "lastSec e \<le>s nowSec \<Longrightarrow> generateNewHashes_loop nowSec idx hv v e =
     generateNewHashes_loop nowSec idx (Sum_into (hasher v (id' e) (Timestamp_Bytes (lastSec e))) hv)
       (v\<lparr>userHash := (userHash v)(Sum_into (hasher v (id' e) (Timestamp_Bytes (lastSec e))) hv \<mapsto>
                    \<lparr>index = idx, timeInc = ucast (lastSec e - baseTime v)\<rparr>)\<rparr>)
       (e\<lparr>lastSec := lastSec e + 1\<rparr>)"
  by (subst generateNewHashes_loop.simps) (simp add: Let_def)

lemma loop_total:
  assumes "sint nowSec < 2 ^ 63 - 1"
  shows "\<exists>v' e'. generateNewHashes_loop nowSec idx hv v e = Some (v', e')
     \<and> validUsers v' = validUsers v \<and> ids v' = ids v \<and> hasher v' = hasher v
     \<and> baseTime v' = baseTime v \<and> id' e' = id' e \<and> userIdx e' = userIdx e
     \<and> lastSec e' = (if lastSec e \<le>s nowSec then nowSec + 1 else lastSec e)"
  using assms
proof (induction hv v e rule: loop_induct [where idx = idx])
  case (stop hv v e)
  then show ?case by (simp add: loop_stop)
next
  case (iter hv v e)
  from iter(2) obtain v' e' where
    r: "generateNewHashes_loop nowSec idx hv v e = Some (v', e')"
     "validUsers v' = validUsers v" "ids v' = ids v" "hasher v' = hasher v"
     "baseTime v' = baseTime v" "id' e' = id' e" "userIdx e' = userIdx e"
     "lastSec e' = (if lastSec e + 1 \<le>s nowSec then nowSec + 1 else lastSec e + 1)"
    by (auto simp: loop_iter [OF iter(1)])
  have le: "sint (lastSec e) \<le> sint nowSec" using iter(1) by (simp add: word_sle_eq)
  with assms have s1: "sint (lastSec e + 1) = sint (lastSec e) + 1"
    by (intro sint_succ) simp
  have "lastSec e' = nowSec + 1"
  proof (cases "lastSec e + 1 \<le>s nowSec")
    case True
    with r(8) show ?thesis by simp
  next
    case False
    then have "sint (lastSec e) = sint nowSec" using le s1 by (simp add: word_sle_eq)
    then have "lastSec e = nowSec" by (rule signed_word_eqI)
    with False r(8) show ?thesis by simp
  qed
  with r iter(1) show ?case by simp
qed


lemma window_split:
  fixes lo hi s :: Timestamp
  assumes "lo \<le>s hi" and "sint hi < 2 ^ 63 - 1"
  shows "(lo \<le>s s \<and> s \<le>s hi) \<longleftrightarrow> (s = lo \<or> (lo + 1 \<le>s s \<and> s \<le>s hi))"
proof -
  have le: "sint lo \<le> sint hi" using assms(1) by (simp add: word_sle_eq)
  with assms(2) have s1: "sint (lo + 1) = sint lo + 1" by (intro sint_succ) simp
  have "s = lo \<longleftrightarrow> sint s = sint lo" by (auto intro: signed_word_eqI)
  with le s1 show ?thesis by (auto simp: word_sle_eq)
qed

lemma loop_effect:
  assumes "sint nowSec < 2 ^ 63 - 1"
  shows "digest16 (hasher v) \<longrightarrow> length hv = 16 \<longrightarrow>
    (\<exists>v' e'. generateNewHashes_loop nowSec idx hv v e = Some (v', e') \<and>
      (\<forall>t. ((\<exists>s. lastSec e \<le>s s \<and> s \<le>s nowSec \<and> t = hasher v (id' e) (Timestamp_Bytes s)) \<longrightarrow>
              (\<exists>s. lastSec e \<le>s s \<and> s \<le>s nowSec \<and> t = hasher v (id' e) (Timestamp_Bytes s)
                   \<and> userHash v' t = Some \<lparr>index = idx, timeInc = ucast (s - baseTime v)\<rparr>))
         \<and> ((\<forall>s. lastSec e \<le>s s \<and> s \<le>s nowSec \<longrightarrow> t \<noteq> hasher v (id' e) (Timestamp_Bytes s)) \<longrightarrow>
              userHash v' t = userHash v t)))"
  using assms
proof (induction hv v e rule: loop_induct [where idx = idx])
  case (stop hv v e)
  then have "\<And>s. \<not> (lastSec e \<le>s s \<and> s \<le>s nowSec)"
    by (auto simp: word_sle_eq)
  then show ?case by (auto simp: loop_stop [OF stop])
next
  case (iter hv v e)
  show ?case
  proof (intro impI)
    assume d: "digest16 (hasher v)" and l: "length hv = 16"
    let ?h = "hasher v (id' e)"
    let ?t0 = "?h (Timestamp_Bytes (lastSec e))"
    let ?p0 = "\<lparr>index = idx, timeInc = ucast (lastSec e - baseTime v)\<rparr>"
    let ?v1 = "v\<lparr>userHash := (userHash v)(?t0 \<mapsto> ?p0)\<rparr>"
    let ?e1 = "e\<lparr>lastSec := lastSec e + 1\<rparr>"
    let ?W1 = "\<lambda>t s. lastSec e + 1 \<le>s s \<and> s \<le>s nowSec \<and> t = ?h (Timestamp_Bytes s)"
    let ?W = "\<lambda>t s. lastSec e \<le>s s \<and> s \<le>s nowSec \<and> t = ?h (Timestamp_Bytes s)"
    have hv1: "Sum_into ?t0 hv = ?t0"
      using d l by (simp add: Sum_into_digest16 digest16_def)
    have l1: "length ?t0 = 16" using d by (simp add: digest16_def)
    from iter(2) d l1 obtain v' e' where
      r: "generateNewHashes_loop nowSec idx ?t0 ?v1 ?e1 = Some (v', e')"
      and hit: "\<And>t. (\<exists>s. ?W1 t s) \<Longrightarrow>
          \<exists>s. ?W1 t s \<and> userHash v' t = Some \<lparr>index = idx, timeInc = ucast (s - baseTime v)\<rparr>"
      and miss: "\<And>t. (\<forall>s. \<not> ?W1 t s) \<Longrightarrow> userHash v' t = userHash ?v1 t"
      unfolding hv1 by (simp, blast)
    have ret: "generateNewHashes_loop nowSec idx hv v e = Some (v', e')"
      using r by (simp add: loop_iter [OF iter(1)] hv1)
    note ws = window_split [OF iter(1) assms]
    have A: "\<exists>s. ?W t s \<and> userHash v' t = Some \<lparr>index = idx, timeInc = ucast (s - baseTime v)\<rparr>"
      if w: "\<exists>s. ?W t s" for t
    proof (cases "\<exists>s. ?W1 t s")
      case True
      from hit [OF True] obtain s where "?W1 t s"
          "userHash v' t = Some \<lparr>index = idx, timeInc = ucast (s - baseTime v)\<rparr>"
        by blast
      moreover from this have "lastSec e \<le>s s" using ws [of s] by simp
      ultimately show ?thesis by blast
    next
      case False
      then have u: "userHash v' t = userHash ?v1 t" by (intro miss) blast
      from w obtain s where s: "lastSec e \<le>s s" "s \<le>s nowSec" "t = ?h (Timestamp_Bytes s)"
        by blast
      from s(1,2) have "s = lastSec e \<or> (lastSec e + 1 \<le>s s \<and> s \<le>s nowSec)"
        using ws [of s] by simp
      with False s have sl: "s = lastSec e" by blast
      with s(3) u have "userHash v' t = Some \<lparr>index = idx, timeInc = ucast (s - baseTime v)\<rparr>"
        by simp
      with s show ?thesis by blast
    qed
    have B: "userHash v' t = userHash v t" if nw: "\<forall>s. \<not> ?W t s" for t
    proof -
      have "\<not> ?W1 t s" for s
      proof
        assume a: "?W1 t s"
        then have "lastSec e \<le>s s \<and> s \<le>s nowSec" using ws [of s] by simp
        with a nw show False by blast
      qed
      then have u: "userHash v' t = userHash ?v1 t" by (intro miss) blast
      have "lastSec e \<le>s lastSec e \<and> lastSec e \<le>s nowSec" using iter(1) by simp
      with nw have "t \<noteq> ?t0" by blast
      with u show ?thesis by simp
    qed
    from ret A B show "\<exists>v' e'. generateNewHashes_loop nowSec idx hv v e = Some (v', e') \<and>
      (\<forall>t. ((\<exists>s. lastSec e \<le>s s \<and> s \<le>s nowSec \<and> t = hasher v (id' e) (Timestamp_Bytes s)) \<longrightarrow>
              (\<exists>s. lastSec e \<le>s s \<and> s \<le>s nowSec \<and> t = hasher v (id' e) (Timestamp_Bytes s)
                   \<and> userHash v' t = Some \<lparr>index = idx, timeInc = ucast (s - baseTime v)\<rparr>))
         \<and> ((\<forall>s. lastSec e \<le>s s \<and> s \<le>s nowSec \<longrightarrow> t \<noteq> hasher v (id' e) (Timestamp_Bytes s)) \<longrightarrow>
              userHash v' t = userHash v t))"
    proof (intro exI [of _ v'] exI [of _ e'] conjI allI impI)
      show "generateNewHashes_loop nowSec idx hv v e = Some (v', e')" by (rule ret)
    next
      fix t assume "\<exists>s. ?W t s"
      from A [OF this]
      show "\<exists>s. lastSec e \<le>s s \<and> s \<le>s nowSec \<and> t = hasher v (id' e) (Timestamp_Bytes s)
                   \<and> userHash v' t = Some \<lparr>index = idx, timeInc = ucast (s - baseTime v)\<rparr>"
        by blast
    next
      fix t assume "\<forall>s. lastSec e \<le>s s \<and> s \<le>s nowSec \<longrightarrow> t \<noteq> ?h (Timestamp_Bytes s)"
      then have "\<forall>s. \<not> ?W t s" by blast
      then show "userHash v' t = userHash v t" by (rule B)
    qed
  qed
qed

lemma loop_index:
  assumes "sint nowSec < 2 ^ 63 - 1"
  shows "\<exists>v' e'. generateNewHashes_loop nowSec idx hv v e = Some (v', e') \<and>
      (\<forall>t p. userHash v' t = Some p \<longrightarrow> userHash v t = Some p \<or> index p = idx) \<and>
      (\<forall>t. userHash v t \<noteq> None \<longrightarrow> userHash v' t \<noteq> None)"
  using assms
proof (induction hv v e rule: loop_induct [where idx = idx])
  case (stop hv v e)
  then show ?case by (simp add: loop_stop)
next
  case (iter hv v e)
  let ?t0 = "Sum_into (hasher v (id' e) (Timestamp_Bytes (lastSec e))) hv"
  let ?p0 = "\<lparr>index = idx, timeInc = ucast (lastSec e - baseTime v)\<rparr>"
  let ?v1 = "v\<lparr>userHash := (userHash v)(?t0 \<mapsto> ?p0)\<rparr>"
  from iter(2) obtain v' e' where
    r: "generateNewHashes_loop nowSec idx hv v e = Some (v', e')"
    and a: "\<And>t p. userHash v' t = Some p \<Longrightarrow> userHash ?v1 t = Some p \<or> index p = idx"
    and b: "\<And>t. userHash ?v1 t \<noteq> None \<Longrightarrow> userHash v' t \<noteq> None"
    unfolding loop_iter [OF iter(1)] by blast
  have "userHash v t = Some p \<or> index p = idx" if "userHash v' t = Some p" for t p
    using a [OF that] by (cases "t = ?t0") auto
  moreover have "userHash v' t \<noteq> None" if "userHash v t \<noteq> None" for t
    using that by (intro b) simp
  ultimately show ?case using r by blast
qed

lemma gen_fin:
  "generateNewHashes nowSec idx e v = Some y \<Longrightarrow> sint nowSec < 2 ^ 63 - 1"
  unfolding generateNewHashes_def by (rule loop_fin)

lemma gen_total:
  assumes "sint nowSec < 2 ^ 63 - 1"
  shows "\<exists>v' e'. generateNewHashes nowSec idx e v = Some (v', e')"
  using loop_total [OF assms, of idx "replicate 16 0" v e]
  unfolding generateNewHashes_def by blast

lemma gen_frame:
  assumes "generateNewHashes nowSec idx e v = Some (v', e')"
  shows "validUsers v' = validUsers v" "ids v' = ids v" "hasher v' = hasher v"
    "baseTime v' = baseTime v" "id' e' = id' e" "userIdx e' = userIdx e"
    "lastSec e' = (if lastSec e \<le>s nowSec then nowSec + 1 else lastSec e)"
  using loop_total [OF gen_fin [OF assms], of idx "replicate 16 0" v e] assms
  unfolding generateNewHashes_def by auto

lemma gen_index:
  assumes "generateNewHashes nowSec idx e v = Some (v', e')"
  shows "userHash v' t = Some p \<Longrightarrow> userHash v t = Some p \<or> index p = idx"
    and "userHash v t \<noteq> None \<Longrightarrow> userHash v' t \<noteq> None"
  using loop_index [OF gen_fin [OF assms], of idx "replicate 16 0" v e] assms
  unfolding generateNewHashes_def by auto

lemma gen_effect:
  assumes "generateNewHashes nowSec idx e v = Some (v', e')" and "digest16 (hasher v)"
  shows "\<exists>s. lastSec e \<le>s s \<and> s \<le>s nowSec \<and> t = hasher v (id' e) (Timestamp_Bytes s) \<Longrightarrow>
           \<exists>s. lastSec e \<le>s s \<and> s \<le>s nowSec \<and> t = hasher v (id' e) (Timestamp_Bytes s)
             \<and> userHash v' t = Some \<lparr>index = idx, timeInc = ucast (s - baseTime v)\<rparr>"
    and "\<forall>s. lastSec e \<le>s s \<and> s \<le>s nowSec \<longrightarrow> t \<noteq> hasher v (id' e) (Timestamp_Bytes s) \<Longrightarrow>
           userHash v' t = userHash v t"
proof -
  from loop_effect [OF gen_fin [OF assms(1)], of v "replicate 16 0" idx e] assms
  have eff: "\<forall>t. ((\<exists>s. lastSec e \<le>s s \<and> s \<le>s nowSec \<and> t = hasher v (id' e) (Timestamp_Bytes s)) \<longrightarrow>
              (\<exists>s. lastSec e \<le>s s \<and> s \<le>s nowSec \<and> t = hasher v (id' e) (Timestamp_Bytes s)
                   \<and> userHash v' t = Some \<lparr>index = idx, timeInc = ucast (s - baseTime v)\<rparr>))
         \<and> ((\<forall>s. lastSec e \<le>s s \<and> s \<le>s nowSec \<longrightarrow> t \<noteq> hasher v (id' e) (Timestamp_Bytes s)) \<longrightarrow>
              userHash v' t = userHash v t)"
    unfolding generateNewHashes_def by auto
  show "\<exists>s. lastSec e \<le>s s \<and> s \<le>s nowSec \<and> t = hasher v (id' e) (Timestamp_Bytes s) \<Longrightarrow>
           \<exists>s. lastSec e \<le>s s \<and> s \<le>s nowSec \<and> t = hasher v (id' e) (Timestamp_Bytes s)
             \<and> userHash v' t = Some \<lparr>index = idx, timeInc = ucast (s - baseTime v)\<rparr>"
    using eff by blast
  show "\<forall>s. lastSec e \<le>s s \<and> s \<le>s nowSec \<longrightarrow> t \<noteq> hasher v (id' e) (Timestamp_Bytes s) \<Longrightarrow>
           userHash v' t = userHash v t"
    using eff by blast
qed

lemma Timestamp_Bytes_bit:
  assumes "Timestamp_Bytes s = Timestamp_Bytes s'" and "j < 8" and "i < 8"
  shows "bit s (8 * j + i) = bit s' (8 * j + i)"
proof -
  from assms(1) have "\<forall>k \<in> {0, 1, 2, 3, 4, 5, 6, 7 :: nat}.
      (ucast (drop_bit (8 * k) s) :: byte) = ucast (drop_bit (8 * k) s')"
    by (simp add: Timestamp_Bytes_def)
  moreover from assms(2) have "j \<in> {0, 1, 2, 3, 4, 5, 6, 7 :: nat}" by auto
  ultimately have "(ucast (drop_bit (8 * j) s) :: byte) = ucast (drop_bit (8 * j) s')"
    by blast
  then have "bit (ucast (drop_bit (8 * j) s) :: byte) i = bit (ucast (drop_bit (8 * j) s') :: byte) i"
    by simp
  with assms(3) show ?thesis
    by (simp add: bit_ucast_iff bit_drop_bit_eq)
qed

lemma Timestamp_Bytes_inj:
  assumes "Timestamp_Bytes s = Timestamp_Bytes s'"
  shows "s = s'"
proof (rule bit_word_eqI)
  fix n assume "n < LENGTH(64)"
  then have "n div 8 < 8" "n mod 8 < 8" by auto
  from Timestamp_Bytes_bit [OF assms this]
  show "bit s n = bit s' n" by simp
qed

lemma length_Timestamp_Bytes: "length (Timestamp_Bytes s) = 8"
  by (simp add: Timestamp_Bytes_def)

lemma digest16_h0: "digest16 h0"
  by (auto simp: digest16_def h0_def)

lemma h0_single:
  "h0 [k] (Timestamp_Bytes s) = k # Timestamp_Bytes s @ replicate 7 0"
  by (simp add: h0_def length_Timestamp_Bytes)

lemma collision_free_h0: "collision_free h0 {[1], [2]}"
  by (auto simp: collision_free_def h0_single dest: Timestamp_Bytes_inj)

lemma collision_free_mono: "collision_free h K \<Longrightarrow> K' \<subseteq> K \<Longrightarrow> collision_free h K'"
  unfolding collision_free_def by blast

section \<open>The entry loops of a cycle and of Add\<close>

lemma gen_cursor_mono:
  assumes "generateNewHashes nowSec idx e v = Some (v', e')"
  shows "lastSec e \<le>s lastSec e'"
proof (cases "lastSec e \<le>s nowSec")
  case True
  have "sint (nowSec + 1) = sint nowSec + 1"
    using gen_fin [OF assms] by (rule sint_succ)
  with True gen_frame(7) [OF assms] show ?thesis by (simp add: word_sle_eq)
next
  case False
  with gen_frame(7) [OF assms] show ?thesis by simp
qed

lemma generateAll_total:
  assumes "sint nowSec < 2 ^ 63 - 1"
  shows "\<exists>v' es'. generateAll nowSec es v = Some (v', es')"
proof (induction es arbitrary: v)
  case Nil
  show ?case by simp
next
  case (Cons e es)
  from gen_total [OF assms] obtain v1 e1 where
    "generateNewHashes nowSec (userIdx e) e v = Some (v1, e1)" by blast
  moreover from Cons [of v1] obtain v2 es2 where "generateAll nowSec es v1 = Some (v2, es2)"
    by blast
  ultimately show ?case by simp
qed

lemma generateAll_fin:
  "generateAll nowSec es v = Some y \<Longrightarrow> es \<noteq> [] \<Longrightarrow> sint nowSec < 2 ^ 63 - 1"
  by (cases es) (auto split: option.splits dest: gen_fin)

lemma generateAll_frame:
  assumes "generateAll nowSec es v = Some (v', es')"
  shows "validUsers v' = validUsers v \<and> ids v' = ids v \<and> hasher v' = hasher v
    \<and> baseTime v' = baseTime v
    \<and> list_all2 (\<lambda>e e'. id' e' = id' e \<and> userIdx e' = userIdx e \<and> lastSec e \<le>s lastSec e'
         \<and> lastSec e' = (if lastSec e \<le>s nowSec then nowSec + 1 else lastSec e)) es es'"
  using assms
proof (induction es arbitrary: v v' es')
  case Nil
  then show ?case by simp
next
  case (Cons e es)
  from Cons.prems obtain v1 e1 es2 where
    g: "generateNewHashes nowSec (userIdx e) e v = Some (v1, e1)"
    and r: "generateAll nowSec es v1 = Some (v', es2)" and es': "es' = e1 # es2"
    by (auto split: option.splits)
  from Cons.IH [OF r] gen_frame [OF g] gen_cursor_mono [OF g] es'
  show ?case by simp
qed

lemma generateAll_index:
  assumes "generateAll nowSec es v = Some (v', es')"
  shows "(\<forall>t p. userHash v' t = Some p \<longrightarrow> userHash v t = Some p \<or> index p \<in> userIdx ` set es)
    \<and> (\<forall>t. userHash v t \<noteq> None \<longrightarrow> userHash v' t \<noteq> None)"
  using assms
proof (induction es arbitrary: v v' es')
  case Nil
  then show ?case by simp
next
  case (Cons e es)
  from Cons.prems obtain v1 e1 es2 where
    g: "generateNewHashes nowSec (userIdx e) e v = Some (v1, e1)"
    and r: "generateAll nowSec es v1 = Some (v', es2)"
    by (auto split: option.splits)
  note ih = Cons.IH [OF r]
  show ?case
  proof (intro conjI allI impI)
    fix t p assume "userHash v' t = Some p"
    with ih have "userHash v1 t = Some p \<or> index p \<in> userIdx ` set es" by blast
    then show "userHash v t = Some p \<or> index p \<in> userIdx ` set (e # es)"
      using gen_index(1) [OF g] by auto
  next
    fix t assume "userHash v t \<noteq> None"
    then have "userHash v1 t \<noteq> None" by (rule gen_index(2) [OF g])
    with ih show "userHash v' t \<noteq> None" by blast
  qed
qed

lemma addEntry_total:
  assumes "sint (nowSec + cacheDurationSec) < 2 ^ 63 - 1"
  shows "\<exists>v1. addEntry nowSec idx key v = Some v1"
  using gen_total [OF assms, of idx "\<lparr>id' = key, userIdx = idx, lastSec = nowSec - cacheDurationSec\<rparr>" v]
  by (auto simp: addEntry_def)

lemma addEntry_fin:
  "addEntry nowSec idx key v = Some v1 \<Longrightarrow> sint (nowSec + cacheDurationSec) < 2 ^ 63 - 1"
  by (auto simp: addEntry_def split: option.splits dest: gen_fin)

lemma addEntry_frame:
  assumes "addEntry nowSec idx key v = Some v1"
  shows "validUsers v1 = validUsers v" "hasher v1 = hasher v" "baseTime v1 = baseTime v"
    "\<exists>e1. ids v1 = ids v @ [e1] \<and> id' e1 = key \<and> userIdx e1 = idx
        \<and> nowSec - cacheDurationSec \<le>s lastSec e1"
    "userHash v1 t = Some p \<Longrightarrow> userHash v t = Some p \<or> index p = idx"
    "userHash v t \<noteq> None \<Longrightarrow> userHash v1 t \<noteq> None"
proof -
  let ?e = "\<lparr>id' = key, userIdx = idx, lastSec = nowSec - cacheDurationSec\<rparr>"
  from assms obtain v' e' where
    g: "generateNewHashes (nowSec + cacheDurationSec) idx ?e v = Some (v', e')"
    and v1: "v1 = v'\<lparr>ids := ids v' @ [e']\<rparr>"
    by (auto simp: addEntry_def split: option.splits)
  from gen_frame [OF g] v1 show "validUsers v1 = validUsers v" "hasher v1 = hasher v"
    "baseTime v1 = baseTime v" by simp_all
  from gen_frame [OF g] gen_cursor_mono [OF g] v1
  show "\<exists>e1. ids v1 = ids v @ [e1] \<and> id' e1 = key \<and> userIdx e1 = idx
        \<and> nowSec - cacheDurationSec \<le>s lastSec e1" by simp
  from gen_index(1) [OF g] v1
  show "userHash v1 t = Some p \<Longrightarrow> userHash v t = Some p \<or> index p = idx" by simp
  from gen_index(2) [OF g] v1
  show "userHash v t \<noteq> None \<Longrightarrow> userHash v1 t \<noteq> None" by simp
qed

lemma addAlterIDs_total:
  assumes "sint (nowSec + cacheDurationSec) < 2 ^ 63 - 1"
  shows "\<exists>v'. addAlterIDs nowSec idx ks v = Some v'"
proof (induction ks arbitrary: v)
  case Nil
  show ?case by simp
next
  case (Cons k ks)
  from addEntry_total [OF assms] obtain v1 where "addEntry nowSec idx k v = Some v1" by blast
  with Cons [of v1] show ?case by simp
qed

lemma addAlterIDs_frame:
  assumes "addAlterIDs nowSec idx ks v = Some v'"
  shows "validUsers v' = validUsers v \<and> hasher v' = hasher v \<and> baseTime v' = baseTime v
    \<and> (\<exists>es. ids v' = ids v @ es \<and> map id' es = ks
          \<and> (\<forall>e \<in> set es. userIdx e = idx \<and> nowSec - cacheDurationSec \<le>s lastSec e))
    \<and> (\<forall>t p. userHash v' t = Some p \<longrightarrow> userHash v t = Some p \<or> index p = idx)
    \<and> (\<forall>t. userHash v t \<noteq> None \<longrightarrow> userHash v' t \<noteq> None)"
  using assms
proof (induction ks arbitrary: v)
  case Nil
  then show ?case by simp
next
  case (Cons k ks)
  from Cons.prems obtain v1 where a: "addEntry nowSec idx k v = Some v1"
    and r: "addAlterIDs nowSec idx ks v1 = Some v'"
    by (auto split: option.splits)
  from addEntry_frame(4) [OF a] obtain e1 where
    e1: "ids v1 = ids v @ [e1]" "id' e1 = k" "userIdx e1 = idx"
      "nowSec - cacheDurationSec \<le>s lastSec e1" by blast
  from Cons.IH [OF r] obtain es where
    es: "ids v' = ids v1 @ es" "map id' es = ks"
      "\<forall>e \<in> set es. userIdx e = idx \<and> nowSec - cacheDurationSec \<le>s lastSec e"
    by blast
  have "ids v' = ids v @ (e1 # es) \<and> map id' (e1 # es) = k # ks
      \<and> (\<forall>e \<in> set (e1 # es). userIdx e = idx \<and> nowSec - cacheDurationSec \<le>s lastSec e)"
    using e1 es by simp
  then have ex: "\<exists>es. ids v' = ids v @ es \<and> map id' es = k # ks
          \<and> (\<forall>e \<in> set es. userIdx e = idx \<and> nowSec - cacheDurationSec \<le>s lastSec e)"
    by (rule exI [of _ "e1 # es"])
  have ix: "userHash v t = Some p \<or> index p = idx" if "userHash v' t = Some p" for t p
  proof -
    from Cons.IH [OF r] that have "userHash v1 t = Some p \<or> index p = idx" by blast
    then show ?thesis using addEntry_frame(5) [OF a] by blast
  qed
  have dm: "userHash v' t \<noteq> None" if "userHash v t \<noteq> None" for t
    using Cons.IH [OF r] addEntry_frame(6) [OF a that] by blast
  from Cons.IH [OF r] addEntry_frame(1-3) [OF a] ex ix dm show ?case by simp
qed

lemma addEntry_effect:
  assumes "addEntry nowSec idx key v = Some v1" and "digest16 (hasher v)"
  shows "\<exists>s. nowSec - cacheDurationSec \<le>s s \<and> s \<le>s nowSec + cacheDurationSec
              \<and> t = hasher v key (Timestamp_Bytes s) \<Longrightarrow>
         \<exists>s. nowSec - cacheDurationSec \<le>s s \<and> s \<le>s nowSec + cacheDurationSec
              \<and> t = hasher v key (Timestamp_Bytes s)
              \<and> userHash v1 t = Some \<lparr>index = idx, timeInc = ucast (s - baseTime v)\<rparr>"
    and "\<forall>s. nowSec - cacheDurationSec \<le>s s \<and> s \<le>s nowSec + cacheDurationSec
              \<longrightarrow> t \<noteq> hasher v key (Timestamp_Bytes s) \<Longrightarrow>
         userHash v1 t = userHash v t"
proof -
  let ?e = "\<lparr>id' = key, userIdx = idx, lastSec = nowSec - cacheDurationSec\<rparr>"
  from assms obtain v' e' where
    g: "generateNewHashes (nowSec + cacheDurationSec) idx ?e v = Some (v', e')"
    and v1: "v1 = v'\<lparr>ids := ids v' @ [e']\<rparr>"
    by (auto simp: addEntry_def split: option.splits)
  show "\<exists>s. nowSec - cacheDurationSec \<le>s s \<and> s \<le>s nowSec + cacheDurationSec
              \<and> t = hasher v key (Timestamp_Bytes s) \<Longrightarrow>
         \<exists>s. nowSec - cacheDurationSec \<le>s s \<and> s \<le>s nowSec + cacheDurationSec
              \<and> t = hasher v key (Timestamp_Bytes s)
              \<and> userHash v1 t = Some \<lparr>index = idx, timeInc = ucast (s - baseTime v)\<rparr>"
    using gen_effect(1) [OF g assms(2), of t] v1 by simp
  show "\<forall>s. nowSec - cacheDurationSec \<le>s s \<and> s \<le>s nowSec + cacheDurationSec
              \<longrightarrow> t \<noteq> hasher v key (Timestamp_Bytes s) \<Longrightarrow>
         userHash v1 t = userHash v t"
    using gen_effect(2) [OF g assms(2), of t] v1 by simp
qed

lemma addAlterIDs_effect:
  assumes "addAlterIDs nowSec idx ks v = Some v'" and "digest16 (hasher v)"
  shows "(\<forall>t. (\<exists>K \<in> set ks. \<exists>s. nowSec - cacheDurationSec \<le>s s \<and> s \<le>s nowSec + cacheDurationSec
              \<and> t = hasher v K (Timestamp_Bytes s)) \<longrightarrow>
         (\<exists>K \<in> set ks. \<exists>s. nowSec - cacheDurationSec \<le>s s \<and> s \<le>s nowSec + cacheDurationSec
              \<and> t = hasher v K (Timestamp_Bytes s)
              \<and> userHash v' t = Some \<lparr>index = idx, timeInc = ucast (s - baseTime v)\<rparr>))
    \<and> (\<forall>t. (\<forall>K \<in> set ks. \<forall>s. nowSec - cacheDurationSec \<le>s s \<and> s \<le>s nowSec + cacheDurationSec
              \<longrightarrow> t \<noteq> hasher v K (Timestamp_Bytes s)) \<longrightarrow>
         userHash v' t = userHash v t)"
  using assms
proof (induction ks arbitrary: v)
  case Nil
  then show ?case by simp
next
  case (Cons k ks)
  from Cons.prems obtain v1 where a: "addEntry nowSec idx k v = Some v1"
    and r: "addAlterIDs nowSec idx ks v1 = Some v'"
    by (auto split: option.splits)
  note fr = addEntry_frame(2,3) [OF a]
  from Cons.prems(2) fr have d1: "digest16 (hasher v1)" by simp
  from Cons.IH [OF r d1] fr
  have hit: "\<And>t. \<exists>K \<in> set ks. \<exists>s. nowSec - cacheDurationSec \<le>s s \<and> s \<le>s nowSec + cacheDurationSec \<and> t = hasher v K (Timestamp_Bytes s) \<Longrightarrow>
         \<exists>K \<in> set ks. \<exists>s. nowSec - cacheDurationSec \<le>s s \<and> s \<le>s nowSec + cacheDurationSec \<and> t = hasher v K (Timestamp_Bytes s)
              \<and> userHash v' t = Some \<lparr>index = idx, timeInc = ucast (s - baseTime v)\<rparr>"
    and miss: "\<And>t. \<forall>K \<in> set ks. \<forall>s. nowSec - cacheDurationSec \<le>s s \<and> s \<le>s nowSec + cacheDurationSec \<longrightarrow> t \<noteq> hasher v K (Timestamp_Bytes s) \<Longrightarrow>
         userHash v' t = userHash v1 t"
    by simp_all
  note e1 = addEntry_effect(1) [OF a Cons.prems(2)]
  note e2 = addEntry_effect(2) [OF a Cons.prems(2)]
  show ?case
  proof (intro conjI allI impI)
    fix t
    assume w: "\<exists>K \<in> set (k # ks). \<exists>s. nowSec - cacheDurationSec \<le>s s \<and> s \<le>s nowSec + cacheDurationSec \<and> t = hasher v K (Timestamp_Bytes s)"
    show "\<exists>K \<in> set (k # ks). \<exists>s. nowSec - cacheDurationSec \<le>s s \<and> s \<le>s nowSec + cacheDurationSec \<and> t = hasher v K (Timestamp_Bytes s)
              \<and> userHash v' t = Some \<lparr>index = idx, timeInc = ucast (s - baseTime v)\<rparr>"
    proof (cases "\<exists>K \<in> set ks. \<exists>s. nowSec - cacheDurationSec \<le>s s \<and> s \<le>s nowSec + cacheDurationSec \<and> t = hasher v K (Timestamp_Bytes s)")
      case True
      from hit [OF True] show ?thesis by auto
    next
      case False
      then have u: "userHash v' t = userHash v1 t" by (intro miss) blast
      from w False have "\<exists>s. nowSec - cacheDurationSec \<le>s s \<and> s \<le>s nowSec + cacheDurationSec \<and> t = hasher v k (Timestamp_Bytes s)" by auto
      from e1 [OF this] u show ?thesis by auto
    qed
  next
    fix t
    assume n: "\<forall>K \<in> set (k # ks). \<forall>s. nowSec - cacheDurationSec \<le>s s \<and> s \<le>s nowSec + cacheDurationSec \<longrightarrow> t \<noteq> hasher v K (Timestamp_Bytes s)"
    then have "userHash v' t = userHash v1 t" by (intro miss) simp
    moreover from n have "userHash v1 t = userHash v t" by (intro e2) simp
    ultimately show "userHash v' t = userHash v t" by simp
  qed
qed

lemma Add_error:
  "GetTypedAccount user = Inl err \<Longrightarrow>
     Add nowSec user v = Some (Returned (Some err), v\<lparr>validUsers := validUsers v @ [user]\<rparr>)"
  by (simp add: Add_def)

lemma Add_panic:
  "GetTypedAccount user = Inr OtherAccount \<Longrightarrow>
     Add nowSec user v = Some (Panicked, v\<lparr>validUsers := validUsers v @ [user]\<rparr>)"
  by (simp add: Add_def)

lemma Add_account:
  "GetTypedAccount user = Inr (InternalAccount key alterids) \<Longrightarrow>
     Add nowSec user v =
       (case addAlterIDs nowSec (int (length (validUsers v))) (key # alterids)
               (v\<lparr>validUsers := validUsers v @ [user]\<rparr>) of
          None \<Rightarrow> None | Some v2 \<Rightarrow> Some (Returned None, v2))"
  by (simp add: Add_def Let_def split: option.splits)

lemma Add_total:
  assumes "sint (nowSec + cacheDurationSec) < 2 ^ 63 - 1"
  shows "\<exists>r v'. Add nowSec user v = Some (r, v')"
proof (cases "GetTypedAccount user")
  case (Inl err)
  then show ?thesis by (simp add: Add_error)
next
  case (Inr acc)
  show ?thesis
  proof (cases acc)
    case (InternalAccount key alterids)
    from addAlterIDs_total [OF assms] obtain v2 where
      "addAlterIDs nowSec (int (length (validUsers v))) (key # alterids)
               (v\<lparr>validUsers := validUsers v @ [user]\<rparr>) = Some v2" by blast
    with Inr InternalAccount show ?thesis by (simp add: Add_account)
  next
    case OtherAccount
    with Inr show ?thesis by (simp add: Add_panic)
  qed
qed

lemma Add_frame:
  assumes "Add nowSec user v = Some (r, v')"
  shows "validUsers v' = validUsers v @ [user] \<and> hasher v' = hasher v \<and> baseTime v' = baseTime v
    \<and> (\<exists>es. ids v' = ids v @ es
          \<and> (\<forall>e \<in> set es. userIdx e = int (length (validUsers v))
                \<and> nowSec - cacheDurationSec \<le>s lastSec e))
    \<and> (\<forall>t p. userHash v' t = Some p \<longrightarrow>
           userHash v t = Some p \<or> index p = int (length (validUsers v)))
    \<and> (\<forall>t. userHash v t \<noteq> None \<longrightarrow> userHash v' t \<noteq> None)"
proof (cases "GetTypedAccount user")
  case (Inl err)
  with assms show ?thesis by (auto simp: Add_error)
next
  case (Inr acc)
  show ?thesis
  proof (cases acc)
    case (InternalAccount key alterids)
    with Inr assms have
      "addAlterIDs nowSec (int (length (validUsers v))) (key # alterids)
               (v\<lparr>validUsers := validUsers v @ [user]\<rparr>) = Some v'"
      by (auto simp: Add_account split: option.splits)
    from addAlterIDs_frame [OF this] show ?thesis by auto
  next
    case OtherAccount
    with Inr assms show ?thesis by (auto simp: Add_panic)
  qed
qed

lemma Add_effect:
  assumes "GetTypedAccount user = Inr (InternalAccount key alterids)"
    and "Add nowSec user v = Some (r, v')" and "digest16 (hasher v)"
  shows "\<exists>K \<in> set (key # alterids). \<exists>s. nowSec - cacheDurationSec \<le>s s
              \<and> s \<le>s nowSec + cacheDurationSec \<and> t = hasher v K (Timestamp_Bytes s) \<Longrightarrow>
         \<exists>K \<in> set (key # alterids). \<exists>s. nowSec - cacheDurationSec \<le>s s
              \<and> s \<le>s nowSec + cacheDurationSec \<and> t = hasher v K (Timestamp_Bytes s)
              \<and> userHash v' t = Some \<lparr>index = int (length (validUsers v)),
                                       timeInc = ucast (s - baseTime v)\<rparr>"
    and "\<forall>K \<in> set (key # alterids). \<forall>s. nowSec - cacheDurationSec \<le>s s
              \<and> s \<le>s nowSec + cacheDurationSec \<longrightarrow> t \<noteq> hasher v K (Timestamp_Bytes s) \<Longrightarrow>
         userHash v' t = userHash v t"
    and "r = Returned None"
proof -
  let ?v0 = "v\<lparr>validUsers := validUsers v @ [user]\<rparr>"
  from assms(1,2) have a:
    "addAlterIDs nowSec (int (length (validUsers v))) (key # alterids) ?v0 = Some v'"
    and r: "r = Returned None"
    by (auto simp: Add_account split: option.splits)
  from assms(3) have d: "digest16 (hasher ?v0)" by simp
  have sel: "hasher ?v0 = hasher v" "baseTime ?v0 = baseTime v" "userHash ?v0 = userHash v"
    by simp_all
  note eff = addAlterIDs_effect [OF a d, unfolded sel]
  show "r = Returned None" by (rule r)
  show "\<exists>K \<in> set (key # alterids). \<exists>s. nowSec - cacheDurationSec \<le>s s
              \<and> s \<le>s nowSec + cacheDurationSec \<and> t = hasher v K (Timestamp_Bytes s) \<Longrightarrow>
         \<exists>K \<in> set (key # alterids). \<exists>s. nowSec - cacheDurationSec \<le>s s
              \<and> s \<le>s nowSec + cacheDurationSec \<and> t = hasher v K (Timestamp_Bytes s)
              \<and> userHash v' t = Some \<lparr>index = int (length (validUsers v)),
                                       timeInc = ucast (s - baseTime v)\<rparr>"
    by (rule eff [THEN conjunct1, THEN spec, THEN mp])
  show "\<forall>K \<in> set (key # alterids). \<forall>s. nowSec - cacheDurationSec \<le>s s
              \<and> s \<le>s nowSec + cacheDurationSec \<longrightarrow> t \<noteq> hasher v K (Timestamp_Bytes s) \<Longrightarrow>
         userHash v' t = userHash v t"
    by (rule eff [THEN conjunct2, THEN spec, THEN mp])
qed

section \<open>The index invariant and the example validator\<close>

lemma list_all2_right:
  "list_all2 P xs ys \<Longrightarrow> y \<in> set ys \<Longrightarrow> \<exists>x \<in> set xs. P x y"
  by (induction rule: list_all2_induct) auto

lemma index_inv_New: "index_inv (NewTimedUserValidator now h)"
  by (simp add: index_inv_def NewTimedUserValidator_def)

lemma index_inv_Add:
  assumes "index_inv v" and "Add nowSec user v = Some (r, v')"
  shows "index_inv v'"
proof -
  note fr = Add_frame [OF assms(2)]
  from fr obtain es where es: "ids v' = ids v @ es"
    "\<forall>e \<in> set es. userIdx e = int (length (validUsers v))" by blast
  have len: "length (validUsers v') = Suc (length (validUsers v))" using fr by simp
  have "0 \<le> index p \<and> index p < int (length (validUsers v'))" if "userHash v' t = Some p" for t p
  proof -
    from fr that have "userHash v t = Some p \<or> index p = int (length (validUsers v))" by blast
    with assms(1) len show ?thesis by (fastforce simp: index_inv_def)
  qed
  moreover have "0 \<le> userIdx e \<and> userIdx e < int (length (validUsers v'))"
    if "e \<in> set (ids v')" for e
  proof -
    from that es have "e \<in> set (ids v) \<or> userIdx e = int (length (validUsers v))" by auto
    with assms(1) len show ?thesis by (fastforce simp: index_inv_def)
  qed
  ultimately show ?thesis by (simp add: index_inv_def)
qed

lemma index_inv_refresh:
  assumes "index_inv v" and "refreshHashes now v = Some v1"
  shows "index_inv v1"
proof -
  from assms(2) obtain v' es' where
    g: "generateAll (now + cacheDurationSec) (ids v) v = Some (v', es')"
    and v1: "v1 = v'\<lparr>ids := es'\<rparr>"
    by (auto simp: refreshHashes_def Let_def split: option.splits)
  note fr = generateAll_frame [OF g]
  note ix = generateAll_index [OF g]
  have "0 \<le> index p \<and> index p < int (length (validUsers v1))" if "userHash v1 t = Some p" for t p
  proof -
    from that v1 ix have "userHash v t = Some p \<or> index p \<in> userIdx ` set (ids v)" by simp
    with assms(1) fr v1 show ?thesis by (fastforce simp: index_inv_def)
  qed
  moreover have "0 \<le> userIdx e' \<and> userIdx e' < int (length (validUsers v1))"
    if "e' \<in> set (ids v1)" for e'
  proof -
    from that v1 have "e' \<in> set es'" by simp
    with fr obtain e where "e \<in> set (ids v)" "userIdx e' = userIdx e"
      by (blast dest: list_all2_right)
    with assms(1) fr v1 show ?thesis by (simp add: index_inv_def)
  qed
  ultimately show ?thesis by (simp add: index_inv_def)
qed

lemma expireHashes_frame:
  "validUsers (expireHashes keys now v) = validUsers v"
  "ids (expireHashes keys now v) = ids v"
  "hasher (expireHashes keys now v) = hasher v"
  "baseTime (expireHashes keys now v) = baseTime v"
  by (simp_all add: expireHashes_def Let_def removeExpiredHashes_frame)

lemma expireHashes_Some:
  "userHash (expireHashes keys now v) t = Some p \<Longrightarrow> userHash v t = Some p"
  by (auto simp: expireHashes_def Let_def split: if_splits dest: removeExpiredHashes_Some)

lemma index_inv_expire:
  assumes "index_inv v"
  shows "index_inv (expireHashes keys now v)"
  using assms unfolding index_inv_def
  by (auto simp: expireHashes_frame dest: expireHashes_Some)

lemma reachable_index_inv: "reachable v \<Longrightarrow> index_inv v"
proof (induction rule: reachable.induct)
  case (reachable_New now h)
  show ?case by (rule index_inv_New)
next
  case (reachable_Add v nowSec user r v')
  then show ?case by (blast intro: index_inv_Add)
next
  case (reachable_cycle v now v1 keys)
  then show ?case by (blast intro: index_inv_expire index_inv_refresh)
qed

lemma length_copy16: "length (copy16 bytes) = 16"
  by (simp add: copy16_def)

lemma copy16_id: "length bytes = 16 \<Longrightarrow> copy16 bytes = bytes"
  by (simp add: copy16_def)

lemma Get_hit:
  assumes "index_inv v" and "userHash v (copy16 bytes) = Some pair"
  shows "Get bytes v =
    (Returned (Some (validUsers v ! nat (index pair)), ucast (timeInc pair) + baseTime v, True), v)"
  using assms by (simp add: Get_def index_inv_def)

lemma Get_miss:
  "userHash v (copy16 bytes) = None \<Longrightarrow> Get bytes v = (Returned (None, 0, False), v)"
  by (simp add: Get_def)

lemma validator1_Add: "Add 360 user0 validator0 = Some (Returned None, validator1)"
proof -
  have "sint ((360 :: Timestamp) + cacheDurationSec) < 2 ^ 63 - 1"
    by (simp add: cacheDurationSec_def)
  from Add_total [OF this] obtain r v' where a: "Add 360 user0 validator0 = Some (r, v')"
    by blast
  have "digest16 (hasher validator0)"
    by (simp add: validator0_def NewTimedUserValidator_def digest16_h0)
  from Add_effect(3) [OF _ a this] have "r = Returned None" by (simp add: user0_def)
  with a show ?thesis by (simp add: validator1_def)
qed

lemma validator0_simps:
  "validUsers validator0 = []" "userHash validator0 = Map.empty" "ids validator0 = []"
  "hasher validator0 = h0" "baseTime validator0 = 0"
  by (simp_all add: validator0_def NewTimedUserValidator_def cacheDurationSec_def)

lemma validator1_simps:
  "validUsers validator1 = [user0]" "hasher validator1 = h0" "baseTime validator1 = 0"
  using Add_frame [OF validator1_Add] by (simp_all add: validator0_simps)

lemma reachable_validator1: "reachable validator1"
  using reachable_Add [OF reachable_New validator1_Add [unfolded validator0_def]] .

lemma validator1_hit:
  assumes "K \<in> {[1], [2]}" and "240 \<le>s s" and "s \<le>s 480"
  shows "userHash validator1 (h0 K (Timestamp_Bytes s)) = Some \<lparr>index = 0, timeInc = ucast s\<rparr>"
proof -
  have acc: "GetTypedAccount user0 = Inr (InternalAccount [1] [[2]])" by (simp add: user0_def)
  have d: "digest16 (hasher validator0)" by (simp add: validator0_simps digest16_h0)
  have "\<exists>K' \<in> set [[1], [2]]. \<exists>s'. 360 - cacheDurationSec \<le>s s' \<and> s' \<le>s 360 + cacheDurationSec
      \<and> h0 K (Timestamp_Bytes s) = hasher validator0 K' (Timestamp_Bytes s')"
    using assms by (auto simp: validator0_simps cacheDurationSec_def)
  from Add_effect(1) [OF acc validator1_Add d this]
  obtain K' s' where "K' \<in> set [[1], [2]]"
    and "h0 K (Timestamp_Bytes s) = hasher validator0 K' (Timestamp_Bytes s')"
    and "userHash validator1 (h0 K (Timestamp_Bytes s)) =
      Some \<lparr>index = int (length (validUsers validator0)),
            timeInc = ucast (s' - baseTime validator0)\<rparr>"
    by blast
  then have k: "K' \<in> {[1], [2]}" and
    eq: "h0 K (Timestamp_Bytes s) = h0 K' (Timestamp_Bytes s')" and
    u: "userHash validator1 (h0 K (Timestamp_Bytes s)) = Some \<lparr>index = 0, timeInc = ucast s'\<rparr>"
    by (simp_all add: validator0_simps)
  from collision_free_h0 assms(1) k eq have "s = s'"
    unfolding collision_free_def by blast
  with u show ?thesis by simp
qed

lemma validator1_miss:
  assumes "\<And>K s. K \<in> {[1], [2]} \<Longrightarrow> 240 \<le>s s \<Longrightarrow> s \<le>s 480 \<Longrightarrow> t \<noteq> h0 K (Timestamp_Bytes s)"
  shows "userHash validator1 t = None"
proof -
  have acc: "GetTypedAccount user0 = Inr (InternalAccount [1] [[2]])" by (simp add: user0_def)
  have d: "digest16 (hasher validator0)" by (simp add: validator0_simps digest16_h0)
  have "\<forall>K \<in> set [[1], [2]]. \<forall>s. 360 - cacheDurationSec \<le>s s \<and> s \<le>s 360 + cacheDurationSec
      \<longrightarrow> t \<noteq> hasher validator0 K (Timestamp_Bytes s)"
    using assms by (auto simp: validator0_simps cacheDurationSec_def)
  from Add_effect(2) [OF acc validator1_Add d this] show ?thesis
    by (simp add: validator0_simps)
qed

section \<open>Add on a failing account, and Get\<close>

text \<open>
  C1. The claim says that an Add failing on the credential record leaves the validator
  unchanged. The code appends the user to \<open>validUsers\<close> before it asks for the account,
  so on the error return the user list has grown: here the list of a fresh validator
  is empty before the failing call and holds the rejected user after it.
\<close>

theorem Add_error_appends_user:
  "Add 360 bad_user validator0 =
     Some (Returned (Some AccountTypeError), validator0\<lparr>validUsers := [bad_user]\<rparr>)
   \<and> validUsers validator0 = []
   \<and> validator0\<lparr>validUsers := [bad_user]\<rparr> \<noteq> validator0"
proof -
  have "validUsers (validator0\<lparr>validUsers := [bad_user]\<rparr>) \<noteq> validUsers validator0"
    by (simp add: validator0_simps)
  then have "validator0\<lparr>validUsers := [bad_user]\<rparr> \<noteq> validator0" by metis
  then show ?thesis
    by (simp add: Add_def bad_user_def validator0_simps)
qed

lemma Get_state: "snd (Get bytes v) = v"
  by (simp add: Get_def Let_def split: option.splits)

lemma Get_copy16: "copy16 a = copy16 b \<Longrightarrow> Get a v = Get b v"
  by (simp add: Get_def)

lemma Get_no_panic:
  assumes "index_inv v"
  shows "fst (Get bytes v) \<noteq> Panicked"
proof (cases "userHash v (copy16 bytes)")
  case None
  then show ?thesis by (simp add: Get_miss)
next
  case (Some pair)
  from Get_hit [OF assms Some] show ?thesis by simp
qed

text \<open>
  C3. In a reachable validator, \<open>Get\<close> on a 16-byte input returns the user stored at
  the index of the token's pair, \<open>baseTime\<close> plus the pair's \<open>timeInc\<close>, and \<open>true\<close>
  when the map holds the token (the index is in range, so the read does not panic);
  it returns \<open>nil\<close>, \<open>0\<close>, \<open>false\<close> when the map does not hold it; and the validator
  it leaves is the validator it was given.
\<close>

theorem Get_lookup:
  assumes "reachable v" and "length bytes = 16"
  shows "(\<forall>pair. userHash v bytes = Some pair \<longrightarrow>
           0 \<le> index pair \<and> index pair < int (length (validUsers v)) \<and>
           Get bytes v =
             (Returned (Some (validUsers v ! nat (index pair)),
                        baseTime v + ucast (timeInc pair), True), v))
       \<and> (userHash v bytes = None \<longrightarrow> Get bytes v = (Returned (None, 0, False), v))
       \<and> snd (Get bytes v) = v"
proof -
  note inv = reachable_index_inv [OF assms(1)]
  have c: "copy16 bytes = bytes" using assms(2) by (rule copy16_id)
  have "0 \<le> index pair \<and> index pair < int (length (validUsers v)) \<and>
           Get bytes v =
             (Returned (Some (validUsers v ! nat (index pair)),
                        baseTime v + ucast (timeInc pair), True), v)"
    if "userHash v bytes = Some pair" for pair
  proof -
    from that c have "userHash v (copy16 bytes) = Some pair" by simp
    from Get_hit [OF inv this] inv that show ?thesis
      by (simp add: index_inv_def add.commute)
  qed
  moreover have "Get bytes v = (Returned (None, 0, False), v)" if "userHash v bytes = None"
    using that c by (simp add: Get_miss)
  ultimately show ?thesis by (simp add: Get_state)
qed

lemma tok600_fresh:
  assumes "K \<in> {[1], [2]}" and "240 \<le>s s" and "s \<le>s 480"
  shows "h0 [1] (Timestamp_Bytes 600) \<noteq> h0 K (Timestamp_Bytes s)"
proof
  assume "h0 [1] (Timestamp_Bytes 600) = h0 K (Timestamp_Bytes s)"
  with collision_free_h0 assms(1) have "s = 600" unfolding collision_free_def by blast
  with assms(3) show False by (simp add: word_sle_eq)
qed

lemma tok300_hit:
  "userHash validator1 (h0 [1] (Timestamp_Bytes 300)) = Some \<lparr>index = 0, timeInc = 300\<rparr>"
proof -
  have "(240 :: Timestamp) \<le>s 300" "(300 :: Timestamp) \<le>s 480" by (simp_all add: word_sle_eq)
  from validator1_hit [OF _ this, of "[1]"] show ?thesis by simp
qed

lemma length_h0: "length (h0 K msg) = 16"
  using digest16_h0 by (simp add: digest16_def)

theorem Get_lookup_witness:
  "reachable validator1 \<and> length (h0 [1] (Timestamp_Bytes 300)) = 16
   \<and> Get (h0 [1] (Timestamp_Bytes 300)) validator1 = (Returned (Some user0, 300, True), validator1)
   \<and> length (h0 [1] (Timestamp_Bytes 600)) = 16
   \<and> Get (h0 [1] (Timestamp_Bytes 600)) validator1 = (Returned (None, 0, False), validator1)"
proof -
  have miss: "userHash validator1 (h0 [1] (Timestamp_Bytes 600)) = None"
    by (rule validator1_miss) (rule tok600_fresh)
  show ?thesis
    using Get_lookup [OF reachable_validator1 length_h0, of "[1]" "Timestamp_Bytes 300"]
      Get_lookup [OF reachable_validator1 length_h0, of "[1]" "Timestamp_Bytes 600"]
      tok300_hit miss reachable_validator1
    by (simp add: length_h0 validator1_simps)
qed

text \<open>
  C9. In a reachable validator every pair stored in the map has an index that is a
  valid position of the user list, so \<open>Get\<close> never panics on its indexed read; the user
  list is only ever extended by \<open>Add\<close> and is left alone by a cycle of the background
  task.
\<close>

theorem index_in_bounds:
  assumes "reachable v"
  shows "(\<forall>t pair. userHash v t = Some pair \<longrightarrow>
            0 \<le> index pair \<and> index pair < int (length (validUsers v)))
       \<and> (\<forall>bytes. fst (Get bytes v) \<noteq> Panicked)
       \<and> (\<forall>nowSec user r v'. Add nowSec user v = Some (r, v') \<longrightarrow>
            validUsers v' = validUsers v @ [user])
       \<and> (\<forall>keys now v'. updateUserHash_cycle keys now v = Some v' \<longrightarrow>
            validUsers v' = validUsers v)"
proof (intro conjI allI impI)
  note inv = reachable_index_inv [OF assms]
  fix t pair assume "userHash v t = Some pair"
  with inv show "0 \<le> index pair" "index pair < int (length (validUsers v))"
    by (auto simp: index_inv_def)
next
  fix bytes show "fst (Get bytes v) \<noteq> Panicked"
    by (rule Get_no_panic [OF reachable_index_inv [OF assms]])
next
  fix nowSec user r v' assume "Add nowSec user v = Some (r, v')"
  from Add_frame [OF this] show "validUsers v' = validUsers v @ [user]" by simp
next
  fix keys now v' assume "updateUserHash_cycle keys now v = Some v'"
  then obtain v1 es where "generateAll (now + cacheDurationSec) (ids v) v = Some (v1, es)"
    and "v' = expireHashes keys now (v1\<lparr>ids := es\<rparr>)"
    by (auto simp: updateUserHash_cycle_def refreshHashes_def Let_def split: option.splits)
  with generateAll_frame [of "now + cacheDurationSec" "ids v" v v1 es]
  show "validUsers v' = validUsers v" by (simp add: expireHashes_frame)
qed

theorem index_in_bounds_witness:
  "reachable validator1
   \<and> userHash validator1 (h0 [1] (Timestamp_Bytes 300)) = Some \<lparr>index = 0, timeInc = 300\<rparr>
   \<and> (0 :: int) \<le> index \<lparr>index = 0, timeInc = 300 :: 32 word\<rparr>
   \<and> index \<lparr>index = 0, timeInc = 300 :: 32 word\<rparr> < int (length (validUsers validator1))
   \<and> fst (Get [] validator1) \<noteq> Panicked
   \<and> Add 360 user0 validator0 = Some (Returned None, validator1)
   \<and> validUsers validator1 = validUsers validator0 @ [user0]"
proof -
  from index_in_bounds [OF reachable_validator1] tok300_hit
  have "0 \<le> index \<lparr>index = 0, timeInc = 300 :: 32 word\<rparr>
      \<and> index \<lparr>index = 0, timeInc = 300 :: 32 word\<rparr> < int (length (validUsers validator1))"
    and "fst (Get [] validator1) \<noteq> Panicked"
    by blast+
  moreover have "reachable validator0" unfolding validator0_def by (rule reachable_New)
  from index_in_bounds [OF this] validator1_Add
  have "validUsers validator1 = validUsers validator0 @ [user0]" by blast
  ultimately show ?thesis
    using reachable_validator1 tok300_hit validator1_Add by simp
qed

text \<open>
  C10. In a reachable validator \<open>Get\<close> does not panic whatever the length of its
  input. The input is looked up through its copy into a zeroed 16-byte array: an input
  of 16 bytes or more behaves as its first 16 bytes, a shorter one as itself padded
  with zero bytes to 16.
\<close>

theorem Get_any_length:
  assumes "reachable v"
  shows "fst (Get bytes v) \<noteq> Panicked
       \<and> Get bytes v = Get (take 16 bytes @ replicate (16 - length bytes) 0) v
       \<and> (16 \<le> length bytes \<longrightarrow> Get bytes v = Get (take 16 bytes) v)
       \<and> (length bytes < 16 \<longrightarrow> Get bytes v = Get (bytes @ replicate (16 - length bytes) 0) v)"
proof (intro conjI impI)
  show "fst (Get bytes v) \<noteq> Panicked"
    by (rule Get_no_panic [OF reachable_index_inv [OF assms]])
  show "Get bytes v = Get (take 16 bytes @ replicate (16 - length bytes) 0) v"
    by (rule Get_copy16) (simp add: copy16_def)
  show "Get bytes v = Get (take 16 bytes) v" if "16 \<le> length bytes"
    using that by (intro Get_copy16) (simp add: copy16_def)
  show "Get bytes v = Get (bytes @ replicate (16 - length bytes) 0) v" if "length bytes < 16"
    using that by (intro Get_copy16) (simp add: copy16_def)
qed

theorem Get_any_length_witness:
  "reachable validator1
   \<and> (16 :: nat) \<le> length (h0 [1] (Timestamp_Bytes 300) @ [7, 7])
   \<and> Get (h0 [1] (Timestamp_Bytes 300) @ [7, 7]) validator1
       = (Returned (Some user0, 300, True), validator1)
   \<and> length [1 :: byte] < 16
   \<and> Get [1] validator1 = Get (1 # replicate 15 0) validator1
   \<and> fst (Get [1] validator1) \<noteq> Panicked"
proof -
  have hit: "Get (h0 [1] (Timestamp_Bytes 300)) validator1
      = (Returned (Some user0, 300, True), validator1)"
    using Get_hit [OF reachable_index_inv [OF reachable_validator1], of "h0 [1] (Timestamp_Bytes 300)"]
      tok300_hit
    by (simp add: copy16_id length_h0 validator1_simps)
  have len: "(16 :: nat) \<le> length (h0 [1] (Timestamp_Bytes 300) @ [7, 7])"
    and short: "length [1 :: byte] < 16"
    by (simp_all add: length_h0)
  from Get_any_length [OF reachable_validator1, of "h0 [1] (Timestamp_Bytes 300) @ [7, 7]"] len hit
  have long: "Get (h0 [1] (Timestamp_Bytes 300) @ [7, 7]) validator1
       = (Returned (Some user0, 300, True), validator1)"
    by (simp add: length_h0)
  note g = Get_any_length [OF reachable_validator1, of "[1]"]
  from g have ok: "fst (Get [1] validator1) \<noteq> Panicked" by (rule conjunct1)
  from g [THEN conjunct2, THEN conjunct2, THEN conjunct2] short
  have pad: "Get [1] validator1 = Get (1 # replicate 15 0) validator1" by simp
  from reachable_validator1 len long short pad ok show ?thesis
    by (intro conjI)
qed

section \<open>The window seeded by Add\<close>


lemma Add_seeded:
  assumes acc: "GetTypedAccount user = Inr (InternalAccount key alterids)"
    and d: "digest16 (hasher v)"
    and ok: "Add nowSec user v = Some (r, v')"
    and K: "K \<in> set (key # alterids)"
    and w: "nowSec - cacheDurationSec \<le>s s" "s \<le>s nowSec + cacheDurationSec"
  shows "\<exists>K' \<in> set (key # alterids). \<exists>s'.
      hasher v K (Timestamp_Bytes s) = hasher v K' (Timestamp_Bytes s')
      \<and> userHash v' (hasher v K (Timestamp_Bytes s)) =
            Some \<lparr>index = int (length (validUsers v)), timeInc = ucast (s' - baseTime v)\<rparr>
      \<and> Get (hasher v K (Timestamp_Bytes s)) v' =
            (Returned (Some user, baseTime v + ucast (ucast (s' - baseTime v) :: 32 word), True), v')"
proof -
  let ?t = "hasher v K (Timestamp_Bytes s)"
  from K w have "\<exists>K' \<in> set (key # alterids). \<exists>s'. nowSec - cacheDurationSec \<le>s s'
      \<and> s' \<le>s nowSec + cacheDurationSec \<and> ?t = hasher v K' (Timestamp_Bytes s')"
    by blast
  from Add_effect(1) [OF acc ok d this] obtain K' s' where
    k: "K' \<in> set (key # alterids)" and eq: "?t = hasher v K' (Timestamp_Bytes s')"
    and u: "userHash v' ?t =
      Some \<lparr>index = int (length (validUsers v)), timeInc = ucast (s' - baseTime v)\<rparr>"
    by blast
  from d have "copy16 ?t = ?t" by (simp add: copy16_id digest16_def)
  with u Add_frame [OF ok]
  have "Get ?t v' =
      (Returned (Some user, baseTime v + ucast (ucast (s' - baseTime v) :: 32 word), True), v')"
    by (simp add: Get_def add.commute)
  with k eq u show ?thesis by blast
qed





section \<open>Tokens resolve to the owner of their key\<close>

lemma list_all2_left:
  "list_all2 P xs ys \<Longrightarrow> x \<in> set xs \<Longrightarrow> \<exists>y \<in> set ys. P x y"
  by (induction rule: list_all2_induct) auto

lemma gen_owner:
  assumes g: "generateNewHashes nowSec idx e v = Some (v', e')" and d: "digest16 (hasher v)"
    and u: "userHash v' t = Some p"
  shows "userHash v t = Some p \<or> (index p = idx \<and> (\<exists>s. t = hasher v (id' e) (Timestamp_Bytes s)))"
proof (cases "\<exists>s. lastSec e \<le>s s \<and> s \<le>s nowSec \<and> t = hasher v (id' e) (Timestamp_Bytes s)")
  case True
  from gen_effect(1) [OF g d True] u show ?thesis by auto
next
  case False
  then have "userHash v' t = userHash v t" by (intro gen_effect(2) [OF g d]) blast
  with u show ?thesis by simp
qed

lemma generateAll_owner:
  assumes "generateAll nowSec es v = Some (v', es')" and "digest16 (hasher v)"
    and "userHash v' t = Some p"
  shows "userHash v t = Some p
    \<or> (\<exists>e \<in> set es. userIdx e = index p \<and> (\<exists>s. t = hasher v (id' e) (Timestamp_Bytes s)))"
  using assms
proof (induction es arbitrary: v v' es')
  case Nil
  then show ?case by simp
next
  case (Cons e es)
  from Cons.prems(1) obtain v1 e1 es2 where
    g: "generateNewHashes nowSec (userIdx e) e v = Some (v1, e1)"
    and r: "generateAll nowSec es v1 = Some (v', es2)"
    by (auto split: option.splits)
  note fr = gen_frame(3) [OF g]
  from Cons.prems(2) fr have d1: "digest16 (hasher v1)" by simp
  from Cons.IH [OF r d1 Cons.prems(3)] fr
  have "userHash v1 t = Some p
    \<or> (\<exists>e \<in> set es. userIdx e = index p \<and> (\<exists>s. t = hasher v (id' e) (Timestamp_Bytes s)))"
    by simp
  then show ?case
  proof
    assume "userHash v1 t = Some p"
    from gen_owner [OF g Cons.prems(2) this] show ?thesis by auto
  next
    assume "\<exists>e \<in> set es. userIdx e = index p \<and> (\<exists>s. t = hasher v (id' e) (Timestamp_Bytes s))"
    then show ?thesis by auto
  qed
qed

lemma owner_inv_refresh:
  assumes inv: "owner_inv v" and d: "digest16 (hasher v)" and r: "refreshHashes now v = Some v1"
  shows "owner_inv v1"
proof -
  from r obtain v' es' where
    g: "generateAll (now + cacheDurationSec) (ids v) v = Some (v', es')"
    and v1: "v1 = v'\<lparr>ids := es'\<rparr>"
    by (auto simp: refreshHashes_def Let_def split: option.splits)
  note fr = generateAll_frame [OF g]
  have "\<exists>e' \<in> set (ids v1). userIdx e' = index p
           \<and> (\<exists>s. t = hasher v1 (id' e') (Timestamp_Bytes s))"
    if u: "userHash v1 t = Some p" for t p
  proof -
    from u v1 have "userHash v' t = Some p" by simp
    from generateAll_owner [OF g d this] inv
    obtain e s where e: "e \<in> set (ids v)" "userIdx e = index p"
      "t = hasher v (id' e) (Timestamp_Bytes s)"
      unfolding owner_inv_def by blast
    from fr e(1) obtain e' where e': "e' \<in> set es'" "id' e' = id' e" "userIdx e' = userIdx e"
      by (blast dest: list_all2_left)
    have sel: "ids v1 = es'" "hasher v1 = hasher v" using v1 fr by simp_all
    show ?thesis unfolding sel
      using e e' by (intro bexI [of _ e'] conjI exI [of _ s]) simp_all
  qed
  then show ?thesis unfolding owner_inv_def by blast
qed

lemma owner_inv_expire:
  assumes "owner_inv v"
  shows "owner_inv (expireHashes keys now v)"
  using assms unfolding owner_inv_def
  by (auto simp: expireHashes_frame dest!: expireHashes_Some)

lemma addAlterIDs_keys:
  assumes "addAlterIDs nowSec idx ks v = Some v'" and "K \<in> set ks"
  shows "\<exists>e \<in> set (ids v'). id' e = K \<and> userIdx e = idx"
proof -
  from addAlterIDs_frame [OF assms(1)] obtain es where
    es: "ids v' = ids v @ es" "map id' es = ks" "\<forall>e \<in> set es. userIdx e = idx"
    by blast
  from es(2) assms(2) have "K \<in> id' ` set es" by (metis list.set_map)
  with es show ?thesis by auto
qed

lemma owner_inv_Add:
  assumes inv: "owner_inv v" and d: "digest16 (hasher v)" and ok: "Add nowSec user v = Some (r, v')"
  shows "owner_inv v'"
proof -
  note fr = Add_frame [OF ok]
  from fr have sub: "set (ids v) \<subseteq> set (ids v')" by auto
  have old: "\<exists>e \<in> set (ids v'). userIdx e = index p
           \<and> (\<exists>s. t = hasher v' (id' e) (Timestamp_Bytes s))"
    if "userHash v t = Some p" for t p
  proof -
    from inv that obtain e s where "e \<in> set (ids v)" "userIdx e = index p"
      "t = hasher v (id' e) (Timestamp_Bytes s)"
      unfolding owner_inv_def by blast
    moreover have "hasher v' = hasher v" using fr by simp
    ultimately show ?thesis using sub
      by (intro bexI [of _ e] conjI exI [of _ s]) auto
  qed
  show ?thesis
  proof (cases "GetTypedAccount user")
    case (Inl err)
    with ok have "userHash v' = userHash v" by (auto simp: Add_error)
    with old show ?thesis unfolding owner_inv_def by simp
  next
    case (Inr acc)
    show ?thesis
    proof (cases acc)
      case OtherAccount
      with Inr ok have "userHash v' = userHash v" by (auto simp: Add_panic)
      with old show ?thesis unfolding owner_inv_def by simp
    next
      case (InternalAccount key alterids)
      with Inr have acc: "GetTypedAccount user = Inr (InternalAccount key alterids)" by simp
      let ?idx = "int (length (validUsers v))"
      let ?v0 = "v\<lparr>validUsers := validUsers v @ [user]\<rparr>"
      from acc ok have a: "addAlterIDs nowSec ?idx (key # alterids) ?v0 = Some v'"
        by (auto simp: Add_account split: option.splits)
      have "\<exists>e \<in> set (ids v'). userIdx e = index p
           \<and> (\<exists>s. t = hasher v' (id' e) (Timestamp_Bytes s))"
        if u: "userHash v' t = Some p" for t p
      proof (cases "\<exists>K \<in> set (key # alterids). \<exists>s. nowSec - cacheDurationSec \<le>s s
              \<and> s \<le>s nowSec + cacheDurationSec \<and> t = hasher v K (Timestamp_Bytes s)")
        case True
        from Add_effect(1) [OF acc ok d True] obtain K s where
          K: "K \<in> set (key # alterids)" and t: "t = hasher v K (Timestamp_Bytes s)"
          and u': "userHash v' t = Some \<lparr>index = ?idx, timeInc = ucast (s - baseTime v)\<rparr>"
          by blast
        from u u' have "p = \<lparr>index = ?idx, timeInc = ucast (s - baseTime v)\<rparr>" by simp
        then have p: "index p = ?idx" by simp
        from addAlterIDs_keys [OF a K] obtain e where
          e: "e \<in> set (ids v')" "id' e = K" "userIdx e = ?idx" by blast
        have "hasher v' = hasher v" using fr by simp
        with t p e show ?thesis
          by (intro bexI [of _ e] conjI exI [of _ s]) simp_all
      next
        case False
        then have "userHash v' t = userHash v t" by (intro Add_effect(2) [OF acc ok d]) blast
        with u old show ?thesis by simp
      qed
      then show ?thesis unfolding owner_inv_def by blast
    qed
  qed
qed

lemma reachable_hasher_owner:
  "reachable v \<Longrightarrow> digest16 (hasher v) \<longrightarrow> owner_inv v"
proof (induction rule: reachable.induct)
  case (reachable_New now h)
  show ?case by (simp add: owner_inv_def NewTimedUserValidator_def)
next
  case (reachable_Add v nowSec user r v')
  from Add_frame [OF reachable_Add(2)] have "hasher v' = hasher v" by simp
  show ?case
  proof
    assume "digest16 (hasher v')"
    with \<open>hasher v' = hasher v\<close> have d: "digest16 (hasher v)" by simp
    with reachable_Add.IH have "owner_inv v" by simp
    from owner_inv_Add [OF this d reachable_Add(2)] show "owner_inv v'" .
  qed
next
  case (reachable_cycle v now v1 keys)
  from reachable_cycle(2) obtain v' es' where
    g: "generateAll (now + cacheDurationSec) (ids v) v = Some (v', es')"
    and v1: "v1 = v'\<lparr>ids := es'\<rparr>"
    by (auto simp: refreshHashes_def Let_def split: option.splits)
  from generateAll_frame [OF g] v1 have "hasher v1 = hasher v" by simp
  show ?case
  proof
    assume "digest16 (hasher (expireHashes keys now v1))"
    with \<open>hasher v1 = hasher v\<close> have d: "digest16 (hasher v)" by (simp add: expireHashes_frame)
    with reachable_cycle.IH have "owner_inv v" by simp
    from owner_inv_refresh [OF this d reachable_cycle(2)]
    show "owner_inv (expireHashes keys now v1)" by (rule owner_inv_expire)
  qed
qed

lemma validator1_ids:
  "\<exists>e1 e2. ids validator1 = [e1, e2] \<and> id' e1 = [1] \<and> id' e2 = [2]
     \<and> userIdx e1 = 0 \<and> userIdx e2 = 0"
proof -
  let ?v0 = "validator0\<lparr>validUsers := validUsers validator0 @ [user0]\<rparr>"
  have "addAlterIDs 360 (int (length (validUsers validator0))) ([1] # [[2]]) ?v0 = Some validator1"
    using validator1_Add by (auto simp: Add_account user0_def split: option.splits)
  from addAlterIDs_frame [OF this] obtain es where
    es: "ids validator1 = es" "map id' es = [[1], [2]]" "\<forall>e \<in> set es. userIdx e = 0"
    by (auto simp: validator0_simps)
  from es(2) obtain e1 e2 where "es = [e1, e2]" "id' e1 = [1]" "id' e2 = [2]" by auto
  with es show ?thesis by auto
qed

lemma validator2_Add: "Add 360 user1 validator1 = Some (Returned None, validator2)"
proof -
  have "sint ((360 :: Timestamp) + cacheDurationSec) < 2 ^ 63 - 1"
    by (simp add: cacheDurationSec_def)
  from Add_total [OF this] obtain r v' where a: "Add 360 user1 validator1 = Some (r, v')"
    by blast
  have "digest16 (hasher validator1)" by (simp add: validator1_simps digest16_h0)
  from Add_effect(3) [OF _ a this] have "r = Returned None" by (simp add: user1_def)
  with a show ?thesis by (simp add: validator2_def)
qed

section \<open>The guarded sweep of a cycle\<close>

lemma refresh_total:
  assumes "ids v = [] \<or> sint (now + cacheDurationSec) < 2 ^ 63 - 1"
  shows "\<exists>v1. refreshHashes now v = Some v1"
proof (cases "ids v = []")
  case True
  then show ?thesis by (simp add: refreshHashes_def)
next
  case False
  with assms have "sint (now + cacheDurationSec) < 2 ^ 63 - 1" by simp
  from generateAll_total [OF this, of "ids v" v] show ?thesis
    by (auto simp: refreshHashes_def)
qed

lemma refresh_frame:
  assumes "refreshHashes now v = Some v1"
  shows "validUsers v1 = validUsers v" "hasher v1 = hasher v" "baseTime v1 = baseTime v"
    "list_all2 (\<lambda>e e'. id' e' = id' e \<and> userIdx e' = userIdx e \<and> lastSec e \<le>s lastSec e')
       (ids v) (ids v1)"
    "userHash v t \<noteq> None \<Longrightarrow> userHash v1 t \<noteq> None"
proof -
  from assms obtain v' es' where
    g: "generateAll (now + cacheDurationSec) (ids v) v = Some (v', es')"
    and v1: "v1 = v'\<lparr>ids := es'\<rparr>"
    by (auto simp: refreshHashes_def Let_def split: option.splits)
  note fr = generateAll_frame [OF g]
  from fr v1 show "validUsers v1 = validUsers v" "hasher v1 = hasher v"
    "baseTime v1 = baseTime v" by simp_all
  from fr have "list_all2 (\<lambda>e e'. id' e' = id' e \<and> userIdx e' = userIdx e
      \<and> lastSec e \<le>s lastSec e') (ids v) es'"
    by (auto elim!: list_all2_mono)
  with v1 show "list_all2 (\<lambda>e e'. id' e' = id' e \<and> userIdx e' = userIdx e
      \<and> lastSec e \<le>s lastSec e') (ids v) (ids v1)" by simp
  from generateAll_index [OF g] v1
  show "userHash v t \<noteq> None \<Longrightarrow> userHash v1 t \<noteq> None" by simp
qed

text \<open>
  C5. When the expiry horizon \<open>now - 3 * cacheDurationSec\<close> is at or before \<open>baseTime\<close>, a
  cycle of the background task is its generation half alone, whatever order the sweep
  would have used: the sweep is skipped, no token present before the cycle is absent
  after it, and the cycle returns (unless its target second is the largest \<open>int64\<close>
  and there is an entry to advance).
\<close>

theorem sweep_guard:
  assumes "now - cacheDurationSec * 3 \<le>s baseTime v"
  shows "updateUserHash_cycle keys now v = refreshHashes now v
       \<and> (\<forall>v' t. updateUserHash_cycle keys now v = Some v' \<longrightarrow> userHash v t \<noteq> None \<longrightarrow>
             userHash v' t \<noteq> None)
       \<and> (ids v = [] \<or> sint (now + cacheDurationSec) < 2 ^ 63 - 1 \<longrightarrow>
             (\<exists>v'. updateUserHash_cycle keys now v = Some v'))"
proof -
  have skip: "expireHashes keys now v1 = v1" if "refreshHashes now v = Some v1" for v1
  proof -
    from refresh_frame(3) [OF that] assms
    have "\<not> baseTime v1 <s now - cacheDurationSec * 3"
      by (simp add: word_sle_eq word_sless_alt)
    then show ?thesis by (simp add: expireHashes_def)
  qed
  then have eq: "updateUserHash_cycle keys now v = refreshHashes now v"
    by (cases "refreshHashes now v") (simp_all add: updateUserHash_cycle_def)
  show ?thesis
  proof (intro conjI allI impI)
    show "updateUserHash_cycle keys now v = refreshHashes now v" by (rule eq)
  next
    fix v' t
    assume "updateUserHash_cycle keys now v = Some v'" and "userHash v t \<noteq> None"
    with eq show "userHash v' t \<noteq> None" by (simp add: refresh_frame(5))
  next
    assume "ids v = [] \<or> sint (now + cacheDurationSec) < 2 ^ 63 - 1"
    from refresh_total [OF this] eq show "\<exists>v'. updateUserHash_cycle keys now v = Some v'"
      by simp
  qed
qed

theorem sweep_guard_witness:
  "(300 :: Timestamp) - cacheDurationSec * 3 \<le>s baseTime validator1
   \<and> updateUserHash_cycle [h0 [1] (Timestamp_Bytes 300)] 300 validator1
       = refreshHashes 300 validator1
   \<and> sint ((300 :: Timestamp) + cacheDurationSec) < 2 ^ 63 - 1
   \<and> userHash validator1 (h0 [1] (Timestamp_Bytes 300)) \<noteq> None
   \<and> (\<exists>v'. updateUserHash_cycle [h0 [1] (Timestamp_Bytes 300)] 300 validator1 = Some v'
         \<and> userHash v' (h0 [1] (Timestamp_Bytes 300)) \<noteq> None)"
proof -
  have a: "(300 :: Timestamp) - cacheDurationSec * 3 \<le>s baseTime validator1"
    by (simp add: validator1_simps cacheDurationSec_def word_sle_eq)
  have b: "sint ((300 :: Timestamp) + cacheDurationSec) < 2 ^ 63 - 1"
    by (simp add: cacheDurationSec_def)
  have c: "userHash validator1 (h0 [1] (Timestamp_Bytes 300)) \<noteq> None"
    by (simp add: tok300_hit)
  note g = sweep_guard [OF a, of "[h0 [1] (Timestamp_Bytes 300)]"]
  from g have eq: "updateUserHash_cycle [h0 [1] (Timestamp_Bytes 300)] 300 validator1
       = refreshHashes 300 validator1" by (rule conjunct1)
  from g b obtain v' where
    v': "updateUserHash_cycle [h0 [1] (Timestamp_Bytes 300)] 300 validator1 = Some v'"
    by blast
  with g c have "userHash v' (h0 [1] (Timestamp_Bytes 300)) \<noteq> None" by blast
  with v' have "\<exists>v'. updateUserHash_cycle [h0 [1] (Timestamp_Bytes 300)] 300 validator1 = Some v'
         \<and> userHash v' (h0 [1] (Timestamp_Bytes 300)) \<noteq> None" by blast
  with a eq b c show ?thesis by (intro conjI)
qed

section \<open>Cursors only move forward\<close>




section \<open>Entries belong to the user holding their key\<close>

lemma account_keys_Internal:
  "GetTypedAccount u = Inr (InternalAccount key alterids) \<Longrightarrow> account_keys u = set (key # alterids)"
  by (simp add: account_keys_def)

lemma entry_inv_New: "entry_inv (NewTimedUserValidator now h)"
  by (simp add: entry_inv_def NewTimedUserValidator_def)

lemma entry_inv_Add:
  assumes inv: "entry_inv v" and ok: "Add nowSec user v = Some (r, v')"
  shows "entry_inv v'"
proof -
  note fr = Add_frame [OF ok]
  from fr have vu: "validUsers v' = validUsers v @ [user]" by simp
  have old: "0 \<le> userIdx e \<and> userIdx e < int (length (validUsers v'))
        \<and> id' e \<in> account_keys (validUsers v' ! nat (userIdx e))"
    if "e \<in> set (ids v)" for e
  proof -
    from inv that have b: "0 \<le> userIdx e" "userIdx e < int (length (validUsers v))"
      and k: "id' e \<in> account_keys (validUsers v ! nat (userIdx e))"
      unfolding entry_inv_def by auto
    from b have "nat (userIdx e) < length (validUsers v)" by simp
    then have "validUsers v' ! nat (userIdx e) = validUsers v ! nat (userIdx e)"
      by (simp add: vu nth_append)
    with b k vu show ?thesis by simp
  qed
  show ?thesis
  proof (cases "GetTypedAccount user")
    case (Inl err)
    with ok have "ids v' = ids v" by (auto simp: Add_error)
    with old show ?thesis unfolding entry_inv_def by simp
  next
    case (Inr acc)
    show ?thesis
    proof (cases acc)
      case OtherAccount
      with Inr ok have "ids v' = ids v" by (auto simp: Add_panic)
      with old show ?thesis unfolding entry_inv_def by simp
    next
      case (InternalAccount key alterids)
      with Inr have acc: "GetTypedAccount user = Inr (InternalAccount key alterids)" by simp
      let ?idx = "int (length (validUsers v))"
      let ?v0 = "v\<lparr>validUsers := validUsers v @ [user]\<rparr>"
      from acc ok have a: "addAlterIDs nowSec ?idx (key # alterids) ?v0 = Some v'"
        by (auto simp: Add_account split: option.splits)
      from addAlterIDs_frame [OF a] obtain es where
        es: "ids v' = ids v @ es" "map id' es = key # alterids"
          "\<forall>e \<in> set es. userIdx e = ?idx"
        by auto
      have new: "0 \<le> userIdx e \<and> userIdx e < int (length (validUsers v'))
        \<and> id' e \<in> account_keys (validUsers v' ! nat (userIdx e))"
        if "e \<in> set es" for e
      proof -
        from that es(3) have i: "userIdx e = ?idx" by simp
        from that have "id' e \<in> set (map id' es)" by simp
        with es(2) have "id' e \<in> set (key # alterids)" by simp
        moreover have "validUsers v' ! nat (userIdx e) = user" by (simp add: i vu)
        ultimately show ?thesis using i vu acc by (simp add: account_keys_Internal)
      qed
      from old new es(1) show ?thesis unfolding entry_inv_def by auto
    qed
  qed
qed

lemma entry_inv_refresh:
  assumes inv: "entry_inv v" and r: "refreshHashes now v = Some v1"
  shows "entry_inv v1"
proof -
  note fr = refresh_frame [OF r]
  have "0 \<le> userIdx e' \<and> userIdx e' < int (length (validUsers v1))
        \<and> id' e' \<in> account_keys (validUsers v1 ! nat (userIdx e'))"
    if "e' \<in> set (ids v1)" for e'
  proof -
    from fr(4) that obtain e where "e \<in> set (ids v)" "id' e' = id' e" "userIdx e' = userIdx e"
      by (blast dest: list_all2_right)
    with inv fr(1) show ?thesis unfolding entry_inv_def by simp
  qed
  then show ?thesis unfolding entry_inv_def by blast
qed

lemma reachable_entry_inv: "reachable v \<Longrightarrow> entry_inv v"
proof (induction rule: reachable.induct)
  case (reachable_New now h)
  show ?case by (rule entry_inv_New)
next
  case (reachable_Add v nowSec user r v')
  then show ?case by (blast intro: entry_inv_Add)
next
  case (reachable_cycle v now v1 keys)
  from entry_inv_refresh [OF reachable_cycle.IH reachable_cycle(2)]
  show ?case unfolding entry_inv_def by (simp add: expireHashes_frame)
qed

lemma collision_free_h0_bytes:
  assumes "\<forall>k \<in> K. length k = 1"
  shows "collision_free h0 K"
  unfolding collision_free_def
proof (intro ballI allI impI)
  fix k k' s s'
  assume k: "k \<in> K" "k' \<in> K"
    and eq: "h0 k (Timestamp_Bytes s) = h0 k' (Timestamp_Bytes s')"
  from k assms obtain b b' where kb: "k = [b]" "k' = [b']"
    by (metis length_0_conv length_Suc_conv One_nat_def)
  with eq have "b = b'" "Timestamp_Bytes s = Timestamp_Bytes s'"
    by (simp_all add: h0_single)
  with kb show "k = k' \<and> s = s'" by (simp add: Timestamp_Bytes_inj)
qed

text \<open>
  C8, amended. In a reachable validator whose hash produces 16-byte digests and is
  collision-free on the keys of the registered users, a hit of \<open>Get\<close> on a token of a
  key \<open>K\<close> of a registered user returns a user of the list whose credential record holds
  \<open>K\<close>. So the token resolves to no user that was not registered with \<open>K\<close>, and when the
  user it was generated for is the only one holding \<open>K\<close>, it resolves to that user.
\<close>

theorem cross_identity_isolation:
  assumes "reachable v" and "digest16 (hasher v)"
    and "collision_free (hasher v) (\<Union> (account_keys ` set (validUsers v)))"
    and "i < length (validUsers v)" and "K \<in> account_keys (validUsers v ! i)"
    and "fst (Get (hasher v K (Timestamp_Bytes s)) v) = Returned (Some u, ts, True)"
  shows "(\<exists>j < length (validUsers v). u = validUsers v ! j \<and> K \<in> account_keys (validUsers v ! j))
       \<and> K \<in> account_keys u
       \<and> ((\<forall>j < length (validUsers v). K \<in> account_keys (validUsers v ! j) \<longrightarrow> j = i) \<longrightarrow>
            u = validUsers v ! i)"
proof -
  let ?t = "hasher v K (Timestamp_Bytes s)"
  let ?KS = "\<Union> (account_keys ` set (validUsers v))"
  note ix = reachable_index_inv [OF assms(1)]
  note en = reachable_entry_inv [OF assms(1)]
  from reachable_hasher_owner [OF assms(1)] assms(2) have ow: "owner_inv v" by simp
  from assms(2) have c: "copy16 ?t = ?t" by (simp add: copy16_id digest16_def)
  have "userHash v ?t \<noteq> None"
  proof
    assume "userHash v ?t = None"
    with c have "Get ?t v = (Returned (None, 0, False), v)" by (simp add: Get_miss)
    with assms(6) show False by simp
  qed
  then obtain p where p: "userHash v ?t = Some p" by blast
  with c have "userHash v (copy16 ?t) = Some p" by simp
  from Get_hit [OF ix this] assms(6) have u: "u = validUsers v ! nat (index p)" by simp
  from ow p obtain e' s' where e': "e' \<in> set (ids v)" "userIdx e' = index p"
    "?t = hasher v (id' e') (Timestamp_Bytes s')"
    unfolding owner_inv_def by blast
  from en e'(1) have b: "0 \<le> userIdx e'" "userIdx e' < int (length (validUsers v))"
    and k': "id' e' \<in> account_keys (validUsers v ! nat (userIdx e'))"
    unfolding entry_inv_def by auto
  let ?j = "nat (userIdx e')"
  from b have j: "?j < length (validUsers v)" by simp
  then have "validUsers v ! ?j \<in> set (validUsers v)" by simp
  with k' have in1: "id' e' \<in> ?KS" by blast
  from assms(4) have "validUsers v ! i \<in> set (validUsers v)" by simp
  with assms(5) have in2: "K \<in> ?KS" by blast
  from assms(3) in2 in1 e'(3) have "K = id' e'" unfolding collision_free_def by blast
  with k' have kj: "K \<in> account_keys (validUsers v ! ?j)" by simp
  from u e'(2) have uj: "u = validUsers v ! ?j" by simp
  show ?thesis
  proof (intro conjI impI)
    from j uj kj
    show "\<exists>j < length (validUsers v). u = validUsers v ! j \<and> K \<in> account_keys (validUsers v ! j)"
      by blast
    from uj kj show "K \<in> account_keys u" by simp
    assume "\<forall>j < length (validUsers v). K \<in> account_keys (validUsers v ! j) \<longrightarrow> j = i"
    with j kj have "?j = i" by blast
    with uj show "u = validUsers v ! i" by simp
  qed
qed

lemma validator3_Add: "Add 360 user3 validator1 = Some (Returned None, validator3)"
proof -
  have "sint ((360 :: Timestamp) + cacheDurationSec) < 2 ^ 63 - 1"
    by (simp add: cacheDurationSec_def)
  from Add_total [OF this] obtain r v' where a: "Add 360 user3 validator1 = Some (r, v')"
    by blast
  have "digest16 (hasher validator1)" by (simp add: validator1_simps digest16_h0)
  from Add_effect(3) [OF _ a this] have "r = Returned None" by (simp add: user3_def)
  with a show ?thesis by (simp add: validator3_def)
qed

lemma validator3_simps:
  "validUsers validator3 = [user0, user3]" "hasher validator3 = h0" "baseTime validator3 = 0"
  using Add_frame [OF validator3_Add] by (simp_all add: validator1_simps)

lemma reachable_validator3: "reachable validator3"
  using reachable_Add [OF reachable_validator1 validator3_Add] .

lemma account_keys_users:
  "account_keys user0 = {[1], [2]}" "account_keys user1 = {[1]}" "account_keys user3 = {[3]}"
  "account_keys bad_user = {}"
  by (auto simp: account_keys_def user0_def user1_def user3_def bad_user_def)

lemma validator3_tokens:
  "Get (h0 [3] (Timestamp_Bytes 300)) validator3 = (Returned (Some user3, 300, True), validator3)"
  "Get (h0 [1] (Timestamp_Bytes 300)) validator3 = (Returned (Some user0, 300, True), validator3)"
proof -
  have acc: "GetTypedAccount user3 = Inr (InternalAccount [3] [])" by (simp add: user3_def)
  have d1: "digest16 (hasher validator1)" by (simp add: validator1_simps digest16_h0)
  have cf: "collision_free h0 {[1], [2], [3]}" by (rule collision_free_h0_bytes) simp
  have w: "360 - cacheDurationSec \<le>s (300 :: Timestamp)"
    "(300 :: Timestamp) \<le>s 360 + cacheDurationSec"
    by (simp_all add: cacheDurationSec_def word_sle_eq)
  from Add_seeded [OF acc d1 validator3_Add _ w, of "[3]"] obtain K' s' where
    k: "K' \<in> set [[3]]"
    and eq: "h0 [3] (Timestamp_Bytes 300) = h0 K' (Timestamp_Bytes s')"
    and g: "Get (h0 [3] (Timestamp_Bytes 300)) validator3 =
       (Returned (Some user3, ucast (ucast s' :: 32 word), True), validator3)"
    by (auto simp: validator1_simps)
  from cf k eq have "s' = 300" unfolding collision_free_def by auto
  with g show "Get (h0 [3] (Timestamp_Bytes 300)) validator3 =
      (Returned (Some user3, 300, True), validator3)" by simp
  have "\<forall>K \<in> set ([3] # []). \<forall>s. 360 - cacheDurationSec \<le>s s \<and> s \<le>s 360 + cacheDurationSec
      \<longrightarrow> h0 [1] (Timestamp_Bytes 300) \<noteq> hasher validator1 K (Timestamp_Bytes s)"
    using cf unfolding collision_free_def by (auto simp: validator1_simps)
  from Add_effect(2) [OF acc validator3_Add d1 this] tok300_hit
  have "userHash validator3 (h0 [1] (Timestamp_Bytes 300)) = Some \<lparr>index = 0, timeInc = 300\<rparr>"
    by simp
  then have "userHash validator3 (copy16 (h0 [1] (Timestamp_Bytes 300)))
      = Some \<lparr>index = 0, timeInc = 300\<rparr>"
    by (simp add: copy16_id length_h0)
  from Get_hit [OF reachable_index_inv [OF reachable_validator3] this]
  show "Get (h0 [1] (Timestamp_Bytes 300)) validator3 =
      (Returned (Some user0, 300, True), validator3)"
    by (simp add: validator3_simps)
qed

theorem cross_identity_isolation_witness:
  "reachable validator3 \<and> digest16 (hasher validator3)
   \<and> collision_free (hasher validator3) (\<Union> (account_keys ` set (validUsers validator3)))
   \<and> validUsers validator3 = [user0, user3]
   \<and> (1 :: nat) < length (validUsers validator3)
   \<and> [3] \<in> account_keys (validUsers validator3 ! 1)
   \<and> fst (Get (hasher validator3 [3] (Timestamp_Bytes 300)) validator3)
        = Returned (Some user3, 300, True)
   \<and> [3] \<in> account_keys user3 \<and> [3] \<notin> account_keys user0 \<and> user3 \<noteq> user0
   \<and> (0 :: nat) < length (validUsers validator3)
   \<and> [1] \<in> account_keys (validUsers validator3 ! 0)
   \<and> fst (Get (hasher validator3 [1] (Timestamp_Bytes 300)) validator3)
        = Returned (Some user0, 300, True)
   \<and> [1] \<in> account_keys user0 \<and> [1] \<notin> account_keys user3"
proof -
  note r = reachable_validator3
  have d: "digest16 (hasher validator3)" by (simp add: validator3_simps digest16_h0)
  have cf: "collision_free (hasher validator3) (\<Union> (account_keys ` set (validUsers validator3)))"
    by (simp add: validator3_simps account_keys_users, rule collision_free_h0_bytes) simp
  have vu: "validUsers validator3 = [user0, user3]" by (simp add: validator3_simps)
  have l1: "(1 :: nat) < length (validUsers validator3)"
    and l0: "(0 :: nat) < length (validUsers validator3)" by (simp_all add: vu)
  have k3: "[3] \<in> account_keys (validUsers validator3 ! 1)"
    and k1: "[1] \<in> account_keys (validUsers validator3 ! 0)"
    by (simp_all add: vu account_keys_users)
  have g3: "fst (Get (hasher validator3 [3] (Timestamp_Bytes 300)) validator3)
        = Returned (Some user3, 300, True)"
    and g1: "fst (Get (hasher validator3 [1] (Timestamp_Bytes 300)) validator3)
        = Returned (Some user0, 300, True)"
    by (simp_all add: validator3_simps validator3_tokens)
  from cross_identity_isolation [OF r d cf l1 k3 g3]
  have o3: "[3] \<in> account_keys user3" by (rule conjunct2 [THEN conjunct1])
  from cross_identity_isolation [OF r d cf l0 k1 g1]
  have o1: "[1] \<in> account_keys user0" by (rule conjunct2 [THEN conjunct1])
  have n3: "[3] \<notin> account_keys user0" and n1: "[1] \<notin> account_keys user3"
    by (simp_all add: account_keys_users)
  from o3 n3 have ne: "user3 \<noteq> user0" by auto
  from r d cf vu l1 k3 g3 o3 n3 ne l0 k1 g1 o1 n1 show ?thesis by (intro conjI)
qed

text \<open>
  C8 as stated fails when two users are registered with the same key. The user
  \<open>user0\<close> is added with the keys 1 and 2, which puts the token of second 300 under
  key 1 into the map with the index of \<open>user0\<close>; then \<open>user1\<close> is added with the key 1. The
  hash is collision-free on the keys of both users, and \<open>Get\<close> on that token now returns
  \<open>user1\<close>.
\<close>

theorem cross_identity_isolation_counterexample:
  "Add 360 user0 validator0 = Some (Returned None, validator1)
   \<and> userHash validator1 (h0 [1] (Timestamp_Bytes 300)) = Some \<lparr>index = 0, timeInc = 300\<rparr>
   \<and> Add 360 user1 validator1 = Some (Returned None, validator2)
   \<and> validUsers validator2 = [user0, user1]
   \<and> [1] \<in> account_keys (validUsers validator2 ! 0)
   \<and> digest16 (hasher validator2)
   \<and> collision_free (hasher validator2) (\<Union> (account_keys ` set (validUsers validator2)))
   \<and> Get (h0 [1] (Timestamp_Bytes 300)) validator2 = (Returned (Some user1, 300, True), validator2)
   \<and> user1 \<noteq> user0"
proof -
  have acc: "GetTypedAccount user1 = Inr (InternalAccount [1] [])" by (simp add: user1_def)
  have d1: "digest16 (hasher validator1)" by (simp add: validator1_simps digest16_h0)
  have fr: "hasher validator2 = h0" "validUsers validator2 = [user0, user1]"
    using Add_frame [OF validator2_Add] by (simp_all add: validator1_simps)
  have d2: "digest16 (hasher validator2)" by (simp add: fr digest16_h0)
  have cf: "collision_free (hasher validator2) (\<Union> (account_keys ` set (validUsers validator2)))"
    using collision_free_h0 by (simp add: fr account_keys_users insert_commute)
  have k: "[1] \<in> account_keys (validUsers validator2 ! 0)"
    by (simp add: fr account_keys_users)
  have w: "360 - cacheDurationSec \<le>s (300 :: Timestamp)"
    "(300 :: Timestamp) \<le>s 360 + cacheDurationSec"
    by (simp_all add: cacheDurationSec_def word_sle_eq)
  from Add_seeded [OF acc d1 validator2_Add _ w, of "[1]"] obtain K' s' where
    "K' \<in> set [[1]]"
    and eq: "h0 [1] (Timestamp_Bytes 300) = h0 K' (Timestamp_Bytes s')"
    and g: "Get (h0 [1] (Timestamp_Bytes 300)) validator2 =
       (Returned (Some user1, ucast (ucast s' :: 32 word), True), validator2)"
    by (auto simp: validator1_simps)
  with collision_free_h0 have "s' = 300" unfolding collision_free_def by auto
  with g have get: "Get (h0 [1] (Timestamp_Bytes 300)) validator2 =
      (Returned (Some user1, 300, True), validator2)" by simp
  have ne: "user1 \<noteq> user0"
  proof
    assume "user1 = user0"
    then have "Email user1 = Email user0" by simp
    then show False by (simp add: user1_def user0_def)
  qed
  from validator1_Add tok300_hit validator2_Add fr(2) k d2 cf get ne show ?thesis
    by (intro conjI)
qed

section \<open>Runs of the generator and the tokens already stored\<close>








end
